theory Spec2Isabelle
  imports Main
begin

section \<open>ngx-http-stub-server: handlers, the handler registry and the stub backend\<close>

text \<open>
  The development follows the two source files \<^verbatim>\<open>handler.ts\<close> and
  \<^verbatim>\<open>ngx-http-stub-server.ts\<close>. Exceptions are values of the type \<open>error\<close>;
  objects that the code mutates in place and copies with \<^verbatim>\<open>clone\<close> live in stores
  indexed by addresses, so that the separation of the current and the initial
  state (and registry) is a proved property and not an assumption.
\<close>

subsection \<open>Errors\<close>

text \<open>
  One constructor per \<^verbatim>\<open>throw\<close> of the source, and \<open>TypeError\<close> for the
  exception that JavaScript itself raises when a property of \<^verbatim>\<open>null\<close> or
  \<^verbatim>\<open>undefined\<close> is read or a value that is not a function is called.
\<close>

datatype error =
    NoHandlerFound
  | InvalidMethod string
  | InvalidResponseNotErrorButStatusNotOk
  | InvalidResponseErrorButStatusOk
  | InvalidResponseOther
  | TypeError

subsection \<open>handler.ts\<close>

text \<open>
  The \<^verbatim>\<open>error\<close> field of an \<^verbatim>\<open>HttpErrorResponse\<close>. The constructor of that
  class stores \<^verbatim>\<open>init.error || null\<close>: a falsy error, such as the empty string,
  is stored as \<^verbatim>\<open>null\<close>.
\<close>

datatype 'b error_value = NullError | StringError string | OtherError 'b

text \<open>
  What a handler function can return at run time: one of the two Angular
  response classes (only body/error and status matter to the backend), or,
  against the declared return type, \<^verbatim>\<open>null\<close>/\<^verbatim>\<open>undefined\<close> or any other
  value. The status is a JavaScript number; only its comparison with 200 and 300
  is used and it is modelled as an integer.
\<close>

datatype 'b stub_response =
    HttpResponse 'b int
  | HttpErrorResponse "'b error_value" int
  | Nullish
  | OtherValue 'b

text \<open>
  \<^verbatim>\<open>HttpRequest\<close> is the request class of Angular's HTTP client; \<^verbatim>\<open>handle\<close>
  reads its \<^verbatim>\<open>method\<close> and \<^verbatim>\<open>url\<close>. The constructor of the class stores
  \<^verbatim>\<open>method.toUpperCase()\<close>, so the method of a request has no letter from
  \<^verbatim>\<open>a\<close> to \<^verbatim>\<open>z\<close>: it is \<open>upper_cased\<close>.
\<close>

record 'b HttpRequest =
  req_method :: string
  req_url :: string
  req_body :: 'b

definition lower_case_letters :: string where
  "lower_case_letters = ''abcdefghijklmnopqrstuvwxyz''"

definition upper_cased :: "string \<Rightarrow> bool" where
  "upper_cased m \<longleftrightarrow> (\<forall>c\<in>set m. c \<notin> set lower_case_letters)"

record 'b params =
  body :: 'b
  status :: int

text \<open>The body of \<^verbatim>\<open>ok\<close> has any type, the body of \<^verbatim>\<open>error\<close> is a string.\<close>

record 'b ResponseBuilder =
  ok :: "'b params \<Rightarrow> 'b stub_response"
  error :: "string params \<Rightarrow> 'b stub_response"

text \<open>
  \<^verbatim>\<open>responseBuilder.ok\<close> is \<^verbatim>\<open>new HttpResponse({body: params.body, status: params.status})\<close>
  and \<^verbatim>\<open>responseBuilder.error\<close> is
  \<^verbatim>\<open>new HttpErrorResponse({error: params.body, status: params.status})\<close>, whose
  constructor stores \<^verbatim>\<open>params.body || null\<close>: the empty string, the only falsy
  string, becomes \<^verbatim>\<open>null\<close>. Neither looks at the status.
\<close>

definition responseBuilder :: "'b ResponseBuilder" where
  "responseBuilder =
     \<lparr> ok = (\<lambda>params. HttpResponse (body params) (status params)),
       error = (\<lambda>params.
          HttpErrorResponse
            (if body params = [] then NullError else StringError (body params))
            (status params)) \<rparr>"

text \<open>
  A handler function receives the request, the response builder and a reference
  to the state object. It may mutate the object behind the reference; the model
  returns the content of that object after the call next to the response.
\<close>

type_synonym ('b, 'st) HandlerFn =
  "'b HttpRequest \<Rightarrow> 'b ResponseBuilder \<Rightarrow> 'st \<Rightarrow> 'b stub_response \<times> 'st"

record ('b, 'st) ApiHandler =
  "method" :: string
  url :: string
  handle :: "('b, 'st) HandlerFn"

definition handlerBuilder_head :: "string \<Rightarrow> ('b, 'st) HandlerFn \<Rightarrow> ('b, 'st) ApiHandler" where
  "handlerBuilder_head path handler = \<lparr> method = ''HEAD'', url = path, handle = handler \<rparr>"

definition handlerBuilder_get :: "string \<Rightarrow> ('b, 'st) HandlerFn \<Rightarrow> ('b, 'st) ApiHandler" where
  "handlerBuilder_get path handler = \<lparr> method = ''GET'', url = path, handle = handler \<rparr>"

definition handlerBuilder_post :: "string \<Rightarrow> ('b, 'st) HandlerFn \<Rightarrow> ('b, 'st) ApiHandler" where
  "handlerBuilder_post path handler = \<lparr> method = ''POST'', url = path, handle = handler \<rparr>"

definition handlerBuilder_put :: "string \<Rightarrow> ('b, 'st) HandlerFn \<Rightarrow> ('b, 'st) ApiHandler" where
  "handlerBuilder_put path handler = \<lparr> method = ''PUT'', url = path, handle = handler \<rparr>"

definition handlerBuilder_delete :: "string \<Rightarrow> ('b, 'st) HandlerFn \<Rightarrow> ('b, 'st) ApiHandler" where
  "handlerBuilder_delete path handler = \<lparr> method = ''DELETE'', url = path, handle = handler \<rparr>"

definition handlerBuilder_patch :: "string \<Rightarrow> ('b, 'st) HandlerFn \<Rightarrow> ('b, 'st) ApiHandler" where
  "handlerBuilder_patch path handler = \<lparr> method = ''PATCH'', url = path, handle = handler \<rparr>"

definition handlerBuilder_options :: "string \<Rightarrow> ('b, 'st) HandlerFn \<Rightarrow> ('b, 'st) ApiHandler" where
  "handlerBuilder_options path handler = \<lparr> method = ''OPTIONS'', url = path, handle = handler \<rparr>"

subsection \<open>Property lookup on the object literal \<open>handlersByMethod\<close>\<close>

text \<open>
  \<^verbatim>\<open>handlersByMethod\<close> is an object literal with seven own properties, each an
  array. \<^verbatim>\<open>handlersByMethod[key]\<close> is an ordinary JavaScript property read: it
  yields the own property when there is one, otherwise what the prototype chain
  has under that name, otherwise \<^verbatim>\<open>undefined\<close>. The prototype of an object
  literal is \<^verbatim>\<open>Object.prototype\<close>, whose properties (ECMAScript, with Annex B)
  are listed below; each of them is a function or an object, none an array.
\<close>

definition Object_prototype_keys :: "string list" where
  "Object_prototype_keys =
     [''constructor'', ''hasOwnProperty'', ''isPrototypeOf'', ''propertyIsEnumerable'',
      ''toLocaleString'', ''toString'', ''valueOf'', ''__proto__'',
      ''__defineGetter__'', ''__defineSetter__'', ''__lookupGetter__'', ''__lookupSetter__'']"

datatype 'a property = Undefined | ArrayValue "'a list" | InheritedValue

definition get_property :: "(string \<rightharpoonup> 'a list) \<Rightarrow> string \<Rightarrow> 'a property" where
  "get_property obj key =
     (case obj key of
        Some arr \<Rightarrow> ArrayValue arr
      | None \<Rightarrow> if key \<in> set Object_prototype_keys then InheritedValue else Undefined)"

text \<open>\<^verbatim>\<open>Array.prototype.findIndex\<close>: the first index whose element satisfies the
  predicate, \<open>-1\<close> when there is none.\<close>

fun findIndex :: "('a \<Rightarrow> bool) \<Rightarrow> 'a list \<Rightarrow> int" where
  "findIndex P [] = -1"
| "findIndex P (x # xs) =
     (if P x then 0
      else (let i = findIndex P xs in if i = -1 then -1 else i + 1))"

subsection \<open>ngx-http-stub-server.ts: class \<open>ApiHandlers\<close>\<close>

record ('b, 'st) ApiHandlers =
  handlersByMethod :: "string \<rightharpoonup> ('b, 'st) ApiHandler list"

text \<open>The field initialiser: seven empty arrays.\<close>

definition http_methods :: "string list" where
  "http_methods = [''HEAD'', ''GET'', ''POST'', ''PUT'', ''DELETE'', ''PATCH'', ''OPTIONS'']"

definition ApiHandlers_fields :: "('b, 'st) ApiHandlers" where
  "ApiHandlers_fields =
     \<lparr> handlersByMethod =
         [''HEAD'' \<mapsto> [], ''GET'' \<mapsto> [], ''POST'' \<mapsto> [], ''PUT'' \<mapsto> [],
          ''DELETE'' \<mapsto> [], ''PATCH'' \<mapsto> [], ''OPTIONS'' \<mapsto> []] \<rparr>"

text \<open>
  \<^verbatim>\<open>put\<close>: an \<^verbatim>\<open>undefined\<close> lookup throws \<^verbatim>\<open>Invalid method\<close>; on a value
  inherited from the prototype the call \<^verbatim>\<open>handlers.findIndex(...)\<close> is a call
  of \<^verbatim>\<open>undefined\<close>, a TypeError; on an array the handler replaces the first
  element with the same url, or is pushed at the end.
\<close>

definition ApiHandlers_put ::
  "('b, 'st) ApiHandlers \<Rightarrow> ('b, 'st) ApiHandler \<Rightarrow> error + ('b, 'st) ApiHandlers" where
  "ApiHandlers_put this handler =
     (case get_property (handlersByMethod this) (method handler) of
        Undefined \<Rightarrow> Inl (InvalidMethod (method handler))
      | InheritedValue \<Rightarrow> Inl TypeError
      | ArrayValue handlers \<Rightarrow>
          (let index = findIndex (\<lambda>h. url h = url handler) handlers
           in Inr (this\<lparr> handlersByMethod := (handlersByMethod this)
                      (method handler \<mapsto>
                         (if index = -1 then handlers @ [handler]
                          else handlers[nat index := handler])) \<rparr>)))"

text \<open>The loop of the constructor and of \<^verbatim>\<open>putHandlers\<close>; an exception of
  \<^verbatim>\<open>put\<close> leaves it.\<close>

fun put_all ::
  "('b, 'st) ApiHandlers \<Rightarrow> ('b, 'st) ApiHandler list \<Rightarrow> error + ('b, 'st) ApiHandlers" where
  "put_all this [] = Inr this"
| "put_all this (handler # handlers) =
     (case ApiHandlers_put this handler of
        Inl e \<Rightarrow> Inl e
      | Inr this' \<Rightarrow> put_all this' handlers)"

definition ApiHandlers_constructor ::
  "('b, 'st) ApiHandler list \<Rightarrow> error + ('b, 'st) ApiHandlers" where
  "ApiHandlers_constructor handlers = put_all ApiHandlers_fields handlers"

text \<open>
  \<^verbatim>\<open>match\<close>: \<^verbatim>\<open>undefined\<close> for an \<^verbatim>\<open>undefined\<close> lookup; on an inherited value
  \<^verbatim>\<open>handlers.find(...)\<close> is a call of \<^verbatim>\<open>undefined\<close>, a TypeError; on an array
  the first handler whose url is the given string.
\<close>

definition ApiHandlers_match ::
  "('b, 'st) ApiHandlers \<Rightarrow> string \<Rightarrow> string \<Rightarrow> error + ('b, 'st) ApiHandler option" where
  "ApiHandlers_match this meth u =
     (case get_property (handlersByMethod this) meth of
        Undefined \<Rightarrow> Inr None
      | InheritedValue \<Rightarrow> Inl TypeError
      | ArrayValue handlers \<Rightarrow> Inr (find (\<lambda>h. url h = u) handlers))"

subsection \<open>ngx-http-stub-server.ts: class \<open>HttpClientStubBackend\<close>\<close>

text \<open>
  The four private fields are references. \<open>stateStore\<close> holds the state objects
  and \<open>handlerStore\<close> the \<open>ApiHandlers\<close> objects that the backend has created;
  an address is an index into the store. \<^verbatim>\<open>clone(x)\<close> makes a deep copy: a new
  object, at a new address, with equal content (the handler functions are not
  copied, \<^verbatim>\<open>clone\<close> returns a function as it is).
\<close>

type_synonym addr = nat

record ('b, 'st) HttpClientStubBackend =
  apiHandlers :: addr
  state :: addr
  initialState :: addr
  initialHandlers :: addr
  stateStore :: "'st list"
  handlerStore :: "('b, 'st) ApiHandlers list"

definition clone :: "'a list \<Rightarrow> 'a \<Rightarrow> 'a list \<times> addr" where
  "clone store v = (store @ [v], length store)"

text \<open>
  \<^verbatim>\<open>initialize\<close> on a new backend, whose stores are empty: two copies of the
  state, a registry built from (a copy of) the handler list, and a copy of that
  registry. When the constructor of \<open>ApiHandlers\<close> throws, \<^verbatim>\<open>initialize\<close>
  throws.
\<close>

definition initialize ::
  "'st \<Rightarrow> ('b, 'st) ApiHandler list \<Rightarrow> error + ('b, 'st) HttpClientStubBackend" where
  "initialize newState handlers =
     (let (ss1, a_state) = clone [] newState;
          (ss2, a_initialState) = clone ss1 newState
      in case ApiHandlers_constructor handlers of
           Inl e \<Rightarrow> Inl e
         | Inr reg \<Rightarrow>
             (let (hs1, a_apiHandlers) = clone [] reg;
                  (hs2, a_initialHandlers) = clone hs1 (hs1 ! a_apiHandlers)
              in Inr \<lparr> apiHandlers = a_apiHandlers, state = a_state,
                       initialState = a_initialState, initialHandlers = a_initialHandlers,
                       stateStore = ss2, handlerStore = hs2 \<rparr>))"

text \<open>
  \<^verbatim>\<open>putHandlers\<close> mutates the object behind \<open>apiHandlers\<close> in place, handler by
  handler; when a \<^verbatim>\<open>put\<close> throws, the earlier ones stay done. The result is
  the exception, if any, and the backend after the call.
\<close>

fun putHandlers ::
  "('b, 'st) HttpClientStubBackend \<Rightarrow> ('b, 'st) ApiHandler list
     \<Rightarrow> error option \<times> ('b, 'st) HttpClientStubBackend" where
  "putHandlers this [] = (None, this)"
| "putHandlers this (handler # handlers) =
     (case ApiHandlers_put (handlerStore this ! apiHandlers this) handler of
        Inl e \<Rightarrow> (Some e, this)
      | Inr reg \<Rightarrow>
          putHandlers
            (this\<lparr> handlerStore := (handlerStore this)[apiHandlers this := reg] \<rparr>) handlers)"

definition resetHandlers ::
  "('b, 'st) HttpClientStubBackend \<Rightarrow> ('b, 'st) HttpClientStubBackend" where
  "resetHandlers this =
     (let (hs, a) = clone (handlerStore this) (handlerStore this ! initialHandlers this)
      in this\<lparr> apiHandlers := a, handlerStore := hs \<rparr>)"

definition resetState ::
  "('b, 'st) HttpClientStubBackend \<Rightarrow> ('b, 'st) HttpClientStubBackend" where
  "resetState this =
     (let (ss, a) = clone (stateStore this) (stateStore this ! initialState this)
      in this\<lparr> state := a, stateStore := ss \<rparr>)"

text \<open>
  \<^verbatim>\<open>handle\<close> of the backend (\<open>backend_handle\<close> here, \<open>handle\<close> being the field
  of \<open>ApiHandler\<close>) looks the handler up and throws when there is none;
  otherwise it returns an Observable, a closure over the handler and the request
  that does nothing until it is subscribed.
\<close>

datatype ('b, 'st) Observable = Observable "('b, 'st) ApiHandler" "'b HttpRequest"

definition backend_handle ::
  "('b, 'st) HttpClientStubBackend \<Rightarrow> 'b HttpRequest \<Rightarrow> error + ('b, 'st) Observable" where
  "backend_handle this req =
     (case ApiHandlers_match (handlerStore this ! apiHandlers this) (req_method req) (req_url req) of
        Inl e \<Rightarrow> Inl e
      | Inr None \<Rightarrow> Inl NoHandlerFound
      | Inr (Some handler) \<Rightarrow> Inr (Observable handler req))"

text \<open>
  What the observer of the Observable receives: the notifications passed to
  \<^verbatim>\<open>observer.next\<close>, in order, and how the subscriber function ended:
  \<^verbatim>\<open>observer.complete()\<close>, \<^verbatim>\<open>observer.error(response)\<close>, or a \<^verbatim>\<open>throw\<close>.
\<close>

datatype 'b HttpEvent = Sent | Response "'b stub_response"

datatype 'b ending = Completed | Errored "'b stub_response" | Threw error

definition statusOk :: "int \<Rightarrow> bool" where
  "statusOk s \<longleftrightarrow> s \<ge> 200 \<and> s < 300"

text \<open>The checks of the subscriber function after the handler has returned
  \<open>stubResponse\<close>. Reading \<^verbatim>\<open>.status\<close> of \<^verbatim>\<open>null\<close> or \<^verbatim>\<open>undefined\<close> is a
  TypeError; of any other value that is not a response it is \<^verbatim>\<open>undefined\<close>
  or some value, and the last branch throws.\<close>

fun deliver :: "'b stub_response \<Rightarrow> 'b HttpEvent list \<times> 'b ending" where
  "deliver Nullish = ([Sent], Threw TypeError)"
| "deliver (HttpResponse b s) =
     (if \<not> statusOk s then ([Sent], Threw InvalidResponseNotErrorButStatusNotOk)
      else ([Sent, Response (HttpResponse b s)], Completed))"
| "deliver (HttpErrorResponse b s) =
     (if statusOk s then ([Sent], Threw InvalidResponseErrorButStatusOk)
      else ([Sent], Errored (HttpErrorResponse b s)))"
| "deliver (OtherValue v) = ([Sent], Threw InvalidResponseOther)"

text \<open>Subscribing runs the handler on the object behind \<open>state\<close> at that
  moment; the handler's mutations stay in that object.\<close>

fun subscribe ::
  "('b, 'st) Observable \<Rightarrow> ('b, 'st) HttpClientStubBackend
     \<Rightarrow> ('b HttpEvent list \<times> 'b ending) \<times> ('b, 'st) HttpClientStubBackend" where
  "subscribe (Observable handler req) this =
     (let (stubResponse, st) = handle handler req responseBuilder (stateStore this ! state this)
      in (deliver stubResponse,
          this\<lparr> stateStore := (stateStore this)[state this := st] \<rparr>))"

text \<open>One request as the HTTP client makes it: \<^verbatim>\<open>handle(req)\<close>, then a
  subscription to the Observable it returned.\<close>

definition request ::
  "('b, 'st) HttpClientStubBackend \<Rightarrow> 'b HttpRequest
     \<Rightarrow> (error + 'b HttpEvent list \<times> 'b ending) \<times> ('b, 'st) HttpClientStubBackend" where
  "request this req =
     (case backend_handle this req of
        Inl e \<Rightarrow> (Inl e, this)
      | Inr obs \<Rightarrow> (let (res, this') = subscribe obs this in (Inr res, this')))"

subsection \<open>Runs of a backend\<close>

text \<open>The operations that the controller and the HTTP client perform on an
  initialised backend, and a sequence of them.\<close>

datatype ('b, 'st) operation =
    PutHandlers "('b, 'st) ApiHandler list"
  | ResetHandlers
  | ResetState
  | Request "'b HttpRequest"

fun exec ::
  "('b, 'st) HttpClientStubBackend \<Rightarrow> ('b, 'st) operation \<Rightarrow> ('b, 'st) HttpClientStubBackend" where
  "exec this (PutHandlers handlers) = snd (putHandlers this handlers)"
| "exec this ResetHandlers = resetHandlers this"
| "exec this ResetState = resetState this"
| "exec this (Request req) = snd (request this req)"

definition run ::
  "('b, 'st) HttpClientStubBackend \<Rightarrow> ('b, 'st) operation list \<Rightarrow> ('b, 'st) HttpClientStubBackend" where
  "run this ops = foldl exec this ops"

text \<open>The objects behind the four references.\<close>

definition current_registry :: "('b, 'st) HttpClientStubBackend \<Rightarrow> ('b, 'st) ApiHandlers" where
  "current_registry this = handlerStore this ! apiHandlers this"

definition initial_registry :: "('b, 'st) HttpClientStubBackend \<Rightarrow> ('b, 'st) ApiHandlers" where
  "initial_registry this = handlerStore this ! initialHandlers this"

definition current_state :: "('b, 'st) HttpClientStubBackend \<Rightarrow> 'st" where
  "current_state this = stateStore this ! state this"

definition initial_state :: "('b, 'st) HttpClientStubBackend \<Rightarrow> 'st" where
  "initial_state this = stateStore this ! initialState this"

subsection \<open>The registry as a set of keyed handlers\<close>

text \<open>The key of a handler, the array of a method (empty when the object has
  no own property of that name), and all handlers of a registry in the order of
  the seven arrays.\<close>

definition handler_key :: "('b, 'st) ApiHandler \<Rightarrow> string \<times> string" where
  "handler_key h = (method h, url h)"

definition array_of :: "('b, 'st) ApiHandlers \<Rightarrow> string \<Rightarrow> ('b, 'st) ApiHandler list" where
  "array_of reg m = (case handlersByMethod reg m of Some hs \<Rightarrow> hs | None \<Rightarrow> [])"

definition registered :: "('b, 'st) ApiHandlers \<Rightarrow> ('b, 'st) ApiHandler list" where
  "registered reg = concat (map (array_of reg) http_methods)"

text \<open>The invariant of the data model: no two registered handlers have the same
  method and url.\<close>

definition at_most_one_per_key :: "('b, 'st) ApiHandlers \<Rightarrow> bool" where
  "at_most_one_per_key reg \<longleftrightarrow> distinct (map handler_key (registered reg))"

text \<open>The shape that every registry built by the code has: the own properties
  are the seven methods, the urls within an array are distinct, and an array
  holds handlers of its own method only.\<close>

definition registry_inv :: "('b, 'st) ApiHandlers \<Rightarrow> bool" where
  "registry_inv reg \<longleftrightarrow>
     dom (handlersByMethod reg) = set http_methods \<and>
     (\<forall>m hs. handlersByMethod reg m = Some hs \<longrightarrow>
        distinct (map url hs) \<and> (\<forall>h\<in>set hs. method h = m))"

subsection \<open>Invariants of the backend\<close>

text \<open>The four references point into the stores, and the current and the initial
  object are different objects.\<close>

definition separated :: "('b, 'st) HttpClientStubBackend \<Rightarrow> bool" where
  "separated this \<longleftrightarrow>
     state this < length (stateStore this) \<and>
     initialState this < length (stateStore this) \<and>
     state this \<noteq> initialState this \<and>
     apiHandlers this < length (handlerStore this) \<and>
     initialHandlers this < length (handlerStore this) \<and>
     apiHandlers this \<noteq> initialHandlers this"

text \<open>The invariant of a run: separation, fixed initial snapshots \<open>R\<close> and
  \<open>S\<close>, and a well-shaped current registry.\<close>

definition backend_inv ::
  "('b, 'st) ApiHandlers \<Rightarrow> 'st \<Rightarrow> ('b, 'st) HttpClientStubBackend \<Rightarrow> bool" where
  "backend_inv R S b \<longleftrightarrow>
     separated b \<and> initial_registry b = R \<and> initial_state b = S \<and>
     registry_inv (current_registry b)"

subsection \<open>The outcome invariant of the specification\<close>

text \<open>A Success outcome carries a status in [200,300), a Failure outcome a status
  outside it; any other value is no outcome.\<close>

definition outcome_invariant :: "'b stub_response \<Rightarrow> bool" where
  "outcome_invariant r =
     (case r of
        HttpResponse b s \<Rightarrow> 200 \<le> s \<and> s < 300
      | HttpErrorResponse b s \<Rightarrow> \<not> (200 \<le> s \<and> s < 300)
      | Nullish \<Rightarrow> False
      | OtherValue v \<Rightarrow> False)"

subsection \<open>Example data\<close>

text \<open>The state and handlers of the repository's test file, and handlers that
  return outcomes of every kind.\<close>

type_synonym users = "(nat \<times> string) list"

definition alice_bob :: users where
  "alice_bob = [(1, ''Alice''), (2, ''Bob'')]"

definition get_users :: "(users, users) ApiHandler" where
  "get_users = handlerBuilder_get ''/users''
     (\<lambda>req res st. (ok res \<lparr> body = st, status = 200 \<rparr>, st))"

definition put_user :: "(users, users) ApiHandler" where
  "put_user = handlerBuilder_get ''/users''
     (\<lambda>req res st. (ok res \<lparr> body = [(100, ''Put User'')], status = 200 \<rparr>, st))"

definition push_user :: "(users, users) ApiHandler" where
  "push_user = handlerBuilder_get ''/users''
     (\<lambda>req res st. (ok res \<lparr> body = st @ [(1000, ''override User'')], status = 200 \<rparr>,
                     st @ [(1000, ''override User'')]))"

definition teapot :: "(users, users) ApiHandler" where
  "teapot = handlerBuilder_get ''/teapot''
     (\<lambda>req res st. (ok res \<lparr> body = [], status = 418 \<rparr>, st))"

definition error_200 :: "(users, users) ApiHandler" where
  "error_200 = handlerBuilder_post ''/users''
     (\<lambda>req res st. (error res \<lparr> body = ''created'', status = 200 \<rparr>, st))"

definition missing :: "(users, users) ApiHandler" where
  "missing = handlerBuilder_delete ''/users''
     (\<lambda>req res st. (error res \<lparr> body = ''not found'', status = 404 \<rparr>, st))"

definition nothing :: "(users, users) ApiHandler" where
  "nothing = handlerBuilder_patch ''/users'' (\<lambda>req res st. (Nullish, st))"

definition example_request :: "string \<Rightarrow> string \<Rightarrow> users HttpRequest" where
  "example_request m u = \<lparr> req_method = m, req_url = u, req_body = [] \<rparr>"

text \<open>The backend of the examples: initialised with the test state and the
  handler of \<^verbatim>\<open>GET /users\<close>.\<close>

definition example_backend :: "(users, users) HttpClientStubBackend" where
  "example_backend = projr (initialize alice_bob [get_users])"

section \<open>Properties\<close>

subsection \<open>Arrays: \<open>findIndex\<close>, \<open>find\<close> and \<open>filter\<close>\<close>

lemma findIndex_ge: "findIndex P xs \<ge> -1"
  by (induction xs) (auto simp: Let_def)

lemma findIndex_none: "findIndex P xs = -1 \<longleftrightarrow> (\<forall>x\<in>set xs. \<not> P x)"
proof (induction xs)
  case Nil
  then show ?case by simp
next
  case (Cons x xs)
  have "findIndex P xs \<ge> -1" by (rule findIndex_ge)
  with Cons show ?case by (auto simp: Let_def)
qed

lemma findIndex_hit:
  "findIndex P xs \<noteq> -1 \<Longrightarrow>
     nat (findIndex P xs) < length xs \<and> P (xs ! nat (findIndex P xs))"
proof (induction xs)
  case Nil
  then show ?case by simp
next
  case (Cons x xs)
  have ge: "findIndex P xs \<ge> -1" by (rule findIndex_ge)
  show ?case
  proof (cases "P x")
    case True
    then show ?thesis by simp
  next
    case False
    with Cons.prems have ne: "findIndex P xs \<noteq> -1"
      by (auto simp: Let_def split: if_splits)
    with ge have nat_eq: "nat (findIndex P xs + 1) = Suc (nat (findIndex P xs))"
      by simp
    from False ne Cons.IH[OF ne] show ?thesis
      by (simp add: Let_def nat_eq)
  qed
qed

lemma find_append_snoc:
  "find P (xs @ [x]) = (case find P xs of Some y \<Rightarrow> Some y | None \<Rightarrow> if P x then Some x else None)"
  by (induction xs) auto

lemma find_update_same:
  "findIndex (\<lambda>h. f h = f y) xs \<noteq> -1 \<Longrightarrow>
   find (\<lambda>h. f h = u) (xs[nat (findIndex (\<lambda>h. f h = f y) xs) := y]) =
     (if u = f y then Some y else find (\<lambda>h. f h = u) xs)"
proof (induction xs)
  case Nil
  then show ?case by simp
next
  case (Cons x xs)
  have ge: "findIndex (\<lambda>h. f h = f y) xs \<ge> -1" by (rule findIndex_ge)
  show ?case
  proof (cases "f x = f y")
    case True
    then show ?thesis by auto
  next
    case False
    with Cons.prems have ne: "findIndex (\<lambda>h. f h = f y) xs \<noteq> -1"
      by (auto simp: Let_def split: if_splits)
    with ge have nat_eq: "nat (findIndex (\<lambda>h. f h = f y) xs + 1) = Suc (nat (findIndex (\<lambda>h. f h = f y) xs))"
      by simp
    from False ne Cons.IH[OF ne] show ?thesis
      by (cases "u = f y") (simp_all add: Let_def nat_eq)
  qed
qed

lemma distinct_map_update_first:
  assumes "distinct (map f xs)" and "findIndex (\<lambda>h. f h = f y) xs \<noteq> -1"
  shows "distinct (map f (xs[nat (findIndex (\<lambda>h. f h = f y) xs) := y]))"
  using assms
proof (induction xs)
  case Nil
  then show ?case by simp
next
  case (Cons x xs)
  have ge: "findIndex (\<lambda>h. f h = f y) xs \<ge> -1" by (rule findIndex_ge)
  show ?case
  proof (cases "f x = f y")
    case True
    with Cons.prems show ?thesis by simp
  next
    case False
    with Cons.prems have ne: "findIndex (\<lambda>h. f h = f y) xs \<noteq> -1"
      by (auto simp: Let_def split: if_splits)
    with ge have nat_eq: "nat (findIndex (\<lambda>h. f h = f y) xs + 1) = Suc (nat (findIndex (\<lambda>h. f h = f y) xs))"
      by simp
    from Cons.prems have d: "distinct (map f xs)" and nx: "f x \<notin> f ` set xs" by auto
    have "set (xs[nat (findIndex (\<lambda>h. f h = f y) xs) := y]) \<subseteq> insert y (set xs)"
      by (rule set_update_subset_insert)
    with nx False have "f x \<notin> f ` set (xs[nat (findIndex (\<lambda>h. f h = f y) xs) := y])"
      by auto
    with False ne Cons.IH[OF d ne] show ?thesis
      by (simp add: Let_def nat_eq)
  qed
qed

lemma find_distinct:
  "distinct (map f xs) \<Longrightarrow> x \<in> set xs \<Longrightarrow> find (\<lambda>y. f y = f x) xs = Some x"
proof (induction xs)
  case Nil
  then show ?case by simp
next
  case (Cons a xs)
  show ?case
  proof (cases "f a = f x")
    case True
    with Cons.prems have "x = a" by (metis distinct.simps(2) image_eqI list.simps(9) list.set_map set_ConsD)
    with True show ?thesis by simp
  next
    case False
    with Cons show ?thesis by auto
  qed
qed

lemma find_rev_distinct:
  "distinct (map f xs) \<Longrightarrow> x \<in> set xs \<Longrightarrow> find (\<lambda>y. f y = f x) (rev xs) = Some x"
proof (induction xs)
  case Nil
  then show ?case by simp
next
  case (Cons a xs)
  show ?case
  proof (cases "x \<in> set xs")
    case True
    with Cons have "find (\<lambda>y. f y = f x) (rev xs) = Some x" by simp
    then show ?thesis by (simp add: find_append_snoc)
  next
    case False
    with Cons.prems have xa: "x = a" by simp
    from Cons.prems have "\<forall>y\<in>set xs. f y \<noteq> f a" by (metis distinct.simps(2) image_eqI list.simps(9) list.set_map)
    then have "find (\<lambda>y. f y = f a) (rev xs) = None" by (simp add: find_None_iff)
    with xa show ?thesis by (simp add: find_append_snoc)
  qed
qed

lemma find_rev_last:
  "find P (rev xs) = (if filter P xs = [] then None else Some (last (filter P xs)))"
proof (induction xs)
  case Nil
  then show ?case by simp
next
  case (Cons x xs)
  then show ?case
    by (cases "filter P xs = []") (simp_all add: find_append_snoc)
qed

lemma count_one:
  "distinct (map f xs) \<Longrightarrow> x \<in> set xs \<Longrightarrow> length (filter (\<lambda>y. f y = f x) xs) = 1"
proof (induction xs)
  case Nil
  then show ?case by simp
next
  case (Cons a xs)
  show ?case
  proof (cases "f a = f x")
    case True
    with Cons.prems have "\<forall>y\<in>set xs. f y \<noteq> f x"
      by (metis distinct.simps(2) image_eqI list.simps(9) list.set_map)
    then have "filter (\<lambda>y. f y = f x) xs = []" by (simp add: filter_empty_conv)
    with True show ?thesis by simp
  next
    case False
    with Cons show ?thesis by auto
  qed
qed

subsection \<open>The registry: one \<open>put\<close>\<close>

text \<open>What \<open>match\<close> answers after a \<open>put\<close>: the handler just put under its own
  method and url, and what it answered before everywhere else.\<close>

lemma put_match:
  assumes "ApiHandlers_put reg h = Inr reg'"
  shows "ApiHandlers_match reg' m u =
           (if m = method h \<and> u = url h then Inr (Some h) else ApiHandlers_match reg m u)"
proof -
  from assms obtain hs where hs: "handlersByMethod reg (method h) = Some hs"
    by (auto simp: ApiHandlers_put_def get_property_def split: option.splits if_splits)
  let ?i = "findIndex (\<lambda>x. url x = url h) hs"
  let ?hs' = "if ?i = -1 then hs @ [h] else hs[nat ?i := h]"
  from assms hs have reg': "handlersByMethod reg' = (handlersByMethod reg)(method h \<mapsto> ?hs')"
    by (auto simp: ApiHandlers_put_def get_property_def Let_def)
  show ?thesis
  proof (cases "m = method h")
    case False
    then show ?thesis by (simp add: ApiHandlers_match_def get_property_def reg')
  next
    case True
    have "find (\<lambda>x. url x = u) ?hs' = (if u = url h then Some h else find (\<lambda>x. url x = u) hs)"
    proof (cases "?i = -1")
      case True
      then have "\<forall>x\<in>set hs. url x \<noteq> url h" by (simp add: findIndex_none)
      then have "u = url h \<Longrightarrow> find (\<lambda>x. url x = u) hs = None"
        by (auto simp: find_None_iff)
      with True show ?thesis by (auto simp: find_append_snoc split: option.splits)
    next
      case False
      then show ?thesis using find_update_same[of url h hs u] by simp
    qed
    with True hs show ?thesis
      by (simp add: ApiHandlers_match_def get_property_def reg')
  qed
qed

lemma http_methods_not_inherited: "m \<in> set http_methods \<Longrightarrow> m \<notin> set Object_prototype_keys"
  by (auto simp: http_methods_def Object_prototype_keys_def)

lemma registry_inv_fields: "registry_inv ApiHandlers_fields"
  by (auto simp: registry_inv_def ApiHandlers_fields_def http_methods_def split: if_splits)

lemma put_succeeds:
  assumes "registry_inv reg" and "method h \<in> set http_methods"
  shows "\<exists>reg'. ApiHandlers_put reg h = Inr reg'"
proof -
  from assms have "method h \<in> dom (handlersByMethod reg)" by (simp add: registry_inv_def)
  then show ?thesis
    by (auto simp: ApiHandlers_put_def get_property_def Let_def)
qed

lemma put_fails:
  assumes "registry_inv reg" and "method h \<notin> set http_methods"
  shows "ApiHandlers_put reg h =
           Inl (if method h \<in> set Object_prototype_keys then TypeError else InvalidMethod (method h))"
proof -
  from assms have "handlersByMethod reg (method h) = None"
    by (auto simp: registry_inv_def)
  then show ?thesis
    by (simp add: ApiHandlers_put_def get_property_def)
qed

lemma put_array:
  assumes "ApiHandlers_put reg h = Inr reg'"
  shows "\<exists>hs. handlersByMethod reg (method h) = Some hs \<and>
           handlersByMethod reg' = (handlersByMethod reg)(method h \<mapsto>
              (if findIndex (\<lambda>x. url x = url h) hs = -1 then hs @ [h]
               else hs[nat (findIndex (\<lambda>x. url x = url h) hs) := h]))"
proof (cases "handlersByMethod reg (method h)")
  case None
  with assms show ?thesis
    by (simp add: ApiHandlers_put_def get_property_def split: if_splits)
next
  case (Some hs)
  with assms have "reg' = reg\<lparr> handlersByMethod := (handlersByMethod reg)(method h \<mapsto>
              (if findIndex (\<lambda>x. url x = url h) hs = -1 then hs @ [h]
               else hs[nat (findIndex (\<lambda>x. url x = url h) hs) := h])) \<rparr>"
    by (simp add: ApiHandlers_put_def get_property_def Let_def)
  with Some show ?thesis by simp
qed

lemma put_preserves_inv:
  assumes "registry_inv reg" and "ApiHandlers_put reg h = Inr reg'"
  shows "registry_inv reg'"
proof -
  from put_array[OF assms(2)] obtain hs where
    hs: "handlersByMethod reg (method h) = Some hs" and
    reg': "handlersByMethod reg' = (handlersByMethod reg)(method h \<mapsto>
              (if findIndex (\<lambda>x. url x = url h) hs = -1 then hs @ [h]
               else hs[nat (findIndex (\<lambda>x. url x = url h) hs) := h]))"
    by blast
  let ?i = "findIndex (\<lambda>x. url x = url h) hs"
  let ?hs' = "if ?i = -1 then hs @ [h] else hs[nat ?i := h]"
  from assms(1) hs have d: "distinct (map url hs)" and t: "\<forall>x\<in>set hs. method x = method h"
    by (auto simp: registry_inv_def)
  have d': "distinct (map url ?hs')"
  proof (cases "?i = -1")
    case True
    then have "\<forall>x\<in>set hs. url x \<noteq> url h" by (simp add: findIndex_none)
    with d True show ?thesis by auto
  next
    case False
    with d show ?thesis using distinct_map_update_first[of url hs h] by simp
  qed
  have "set ?hs' \<subseteq> insert h (set hs)"
    using set_update_subset_insert[of hs "nat ?i" h] by auto
  with t have t': "\<forall>x\<in>set ?hs'. method x = method h" by auto
  from hs have "method h \<in> dom (handlersByMethod reg)" by auto
  with assms(1) have dom': "dom (handlersByMethod reg') = set http_methods"
    by (auto simp: registry_inv_def reg')
  show ?thesis
    unfolding registry_inv_def
  proof (intro conjI allI impI)
    show "dom (handlersByMethod reg') = set http_methods" by (rule dom')
  next
    fix m ys assume ys: "handlersByMethod reg' m = Some ys"
    show "distinct (map url ys)"
    proof (cases "m = method h")
      case True
      with ys reg' have "ys = ?hs'" by simp
      with d' show ?thesis by simp
    next
      case False
      with ys reg' have "handlersByMethod reg m = Some ys" by simp
      with assms(1) show ?thesis by (auto simp: registry_inv_def)
    qed
  next
    fix m ys assume ys: "handlersByMethod reg' m = Some ys"
    show "\<forall>x\<in>set ys. method x = m"
    proof (cases "m = method h")
      case True
      with ys reg' have "ys = ?hs'" by simp
      with t' True show ?thesis by simp
    next
      case False
      with ys reg' have "handlersByMethod reg m = Some ys" by simp
      with assms(1) show ?thesis by (auto simp: registry_inv_def)
    qed
  qed
qed

subsection \<open>The registry: a sequence of \<open>put\<close>\<close>

lemma put_all_preserves_inv:
  "registry_inv reg \<Longrightarrow> put_all reg hs = Inr reg' \<Longrightarrow> registry_inv reg'"
proof (induction hs arbitrary: reg)
  case Nil
  then show ?case by simp
next
  case (Cons h hs)
  then show ?case
    by (auto split: sum.splits dest: put_preserves_inv)
qed

lemma put_all_succeeds:
  "registry_inv reg \<Longrightarrow> \<forall>h\<in>set hs. method h \<in> set http_methods \<Longrightarrow> \<exists>reg'. put_all reg hs = Inr reg'"
proof (induction hs arbitrary: reg)
  case Nil
  then show ?case by simp
next
  case (Cons h hs)
  from Cons.prems put_succeeds[of reg h] obtain r1 where r1: "ApiHandlers_put reg h = Inr r1"
    by auto
  with Cons.prems have "registry_inv r1" by (auto dest: put_preserves_inv)
  with Cons.IH[of r1] Cons.prems r1 show ?case by simp
qed

lemma put_all_methods:
  "registry_inv reg \<Longrightarrow> put_all reg hs = Inr reg' \<Longrightarrow> \<forall>h\<in>set hs. method h \<in> set http_methods"
proof (induction hs arbitrary: reg)
  case Nil
  then show ?case by simp
next
  case (Cons h hs)
  from Cons.prems obtain r1 where r1: "ApiHandlers_put reg h = Inr r1" and r2: "put_all r1 hs = Inr reg'"
    by (auto split: sum.splits)
  have "method h \<in> set http_methods"
  proof (rule ccontr)
    assume "method h \<notin> set http_methods"
    from put_fails[OF Cons.prems(1) this] r1 show False by simp
  qed
  moreover from Cons.prems(1) r1 have "registry_inv r1" by (rule put_preserves_inv)
  ultimately show ?case using Cons.IH[OF _ r2] by simp
qed

lemma put_all_match:
  "put_all reg hs = Inr reg' \<Longrightarrow>
   ApiHandlers_match reg' m u =
     (case find (\<lambda>h. method h = m \<and> url h = u) (rev hs) of
        Some h \<Rightarrow> Inr (Some h)
      | None \<Rightarrow> ApiHandlers_match reg m u)"
proof (induction hs arbitrary: reg)
  case Nil
  then show ?case by simp
next
  case (Cons h hs)
  from Cons.prems obtain r1 where r1: "ApiHandlers_put reg h = Inr r1" and r2: "put_all r1 hs = Inr reg'"
    by (auto split: sum.splits)
  from Cons.IH[OF r2] put_match[OF r1, of m u] show ?case
    by (auto simp: find_append_snoc split: option.splits)
qed

lemma fields_match:
  "ApiHandlers_match ApiHandlers_fields m u =
     (if m \<in> set Object_prototype_keys then Inl TypeError else Inr None)"
  by (simp add: ApiHandlers_match_def ApiHandlers_fields_def get_property_def
        Object_prototype_keys_def)

lemma key_pred:
  "(\<lambda>x. handler_key x = handler_key h) = (\<lambda>x. method x = method h \<and> url x = url h)"
  by (simp add: handler_key_def fun_eq_iff)

lemma put_all_last:
  assumes "put_all reg hs = Inr reg'" and "h \<in> set hs"
  shows "ApiHandlers_match reg' (method h) (url h) =
           Inr (Some (last (filter (\<lambda>x. handler_key x = handler_key h) hs)))"
proof -
  from assms(2) have "filter (\<lambda>x. method x = method h \<and> url x = url h) hs \<noteq> []"
    by (auto simp: filter_empty_conv)
  then have "find (\<lambda>x. method x = method h \<and> url x = url h) (rev hs) =
             Some (last (filter (\<lambda>x. method x = method h \<and> url x = url h) hs))"
    by (simp add: find_rev_last)
  with put_all_match[OF assms(1), of "method h" "url h"] show ?thesis
    by (simp add: key_pred)
qed

lemma constructor_inv:
  "ApiHandlers_constructor H = Inr reg \<Longrightarrow> registry_inv reg"
  unfolding ApiHandlers_constructor_def
  by (rule put_all_preserves_inv[OF registry_inv_fields])

subsection \<open>Registered handlers and lookup\<close>

lemma set_registered:
  "set (registered reg) = (\<Union>m\<in>set http_methods. set (array_of reg m))"
  by (simp add: registered_def)

lemma array_of_Some: "handlersByMethod reg m = Some hs \<Longrightarrow> array_of reg m = hs"
  by (simp add: array_of_def)

lemma array_of_mem:
  "h \<in> set (array_of reg m) \<longleftrightarrow> (\<exists>hs. handlersByMethod reg m = Some hs \<and> h \<in> set hs)"
  by (cases "handlersByMethod reg m") (simp_all add: array_of_def)

lemma registered_array:
  assumes "registry_inv reg" and "h \<in> set (registered reg)"
  shows "method h \<in> set http_methods \<and>
         (\<exists>hs. handlersByMethod reg (method h) = Some hs \<and> h \<in> set hs)"
proof -
  from assms(2) obtain m where m: "m \<in> set http_methods" and h: "h \<in> set (array_of reg m)"
    by (auto simp: set_registered)
  from h obtain hs where hs: "handlersByMethod reg m = Some hs" and mem: "h \<in> set hs"
    by (auto simp: array_of_mem)
  with assms(1) have "method h = m" by (auto simp: registry_inv_def)
  with m hs mem show ?thesis by auto
qed

lemma match_array:
  "handlersByMethod reg m = Some hs \<Longrightarrow> ApiHandlers_match reg m u = Inr (find (\<lambda>h. url h = u) hs)"
  by (simp add: ApiHandlers_match_def get_property_def)

lemma match_no_array:
  "handlersByMethod reg m = None \<Longrightarrow>
     ApiHandlers_match reg m u = (if m \<in> set Object_prototype_keys then Inl TypeError else Inr None)"
  by (simp add: ApiHandlers_match_def get_property_def)

lemma registered_match:
  assumes "registry_inv reg" and "h \<in> set (registered reg)"
  shows "ApiHandlers_match reg (method h) (url h) = Inr (Some h)"
proof -
  from registered_array[OF assms] obtain hs
    where hs: "handlersByMethod reg (method h) = Some hs" and mem: "h \<in> set hs" by blast
  from assms(1) hs have "distinct (map url hs)" by (auto simp: registry_inv_def)
  from find_distinct[OF this mem] hs show ?thesis by (simp add: match_array)
qed

lemma match_registered:
  assumes "registry_inv reg" and "ApiHandlers_match reg m u = Inr (Some h)"
  shows "h \<in> set (registered reg) \<and> method h = m \<and> url h = u"
proof (cases "handlersByMethod reg m")
  case None
  with assms(2) show ?thesis by (simp add: match_no_array split: if_splits)
next
  case (Some hs)
  with assms(2) have f: "find (\<lambda>h. url h = u) hs = Some h" by (simp add: match_array)
  then have mem: "h \<in> set hs" and u: "url h = u"
    by (auto simp: find_Some_iff)
  from assms(1) Some mem have tag: "method h = m" by (auto simp: registry_inv_def)
  from assms(1) Some have "m \<in> set http_methods" by (auto simp: registry_inv_def)
  with Some mem have "h \<in> set (registered reg)"
    by (auto simp: set_registered array_of_mem)
  with tag u show ?thesis by simp
qed

lemma match_unregistered:
  assumes "registry_inv reg" and "(m, u) \<notin> handler_key ` set (registered reg)"
  shows "ApiHandlers_match reg m u =
           (if m \<in> set Object_prototype_keys then Inl TypeError else Inr None)"
proof (cases "handlersByMethod reg m")
  case None
  then show ?thesis by (simp add: match_no_array)
next
  case (Some hs)
  with assms(1) have valid: "m \<in> set http_methods" by (auto simp: registry_inv_def)
  have "find (\<lambda>h. url h = u) hs = None"
  proof (cases "find (\<lambda>h. url h = u) hs")
    case None
    then show ?thesis .
  next
    case (Some h)
    with \<open>handlersByMethod reg m = Some hs\<close> have "ApiHandlers_match reg m u = Inr (Some h)"
      by (simp add: match_array)
    from match_registered[OF assms(1) this] assms(2) show ?thesis
      by (auto simp: handler_key_def image_iff)
  qed
  with Some valid show ?thesis
    by (simp add: match_array http_methods_not_inherited)
qed

lemma registered_key_iff:
  assumes "registry_inv reg"
  shows "(m, u) \<in> handler_key ` set (registered reg) \<longleftrightarrow>
         (\<exists>h. ApiHandlers_match reg m u = Inr (Some h))"
proof
  assume "(m, u) \<in> handler_key ` set (registered reg)"
  then obtain h where h: "h \<in> set (registered reg)" and k: "method h = m" "url h = u"
    by (auto simp: handler_key_def)
  from registered_match[OF assms h] k show "\<exists>h. ApiHandlers_match reg m u = Inr (Some h)"
    by auto
next
  assume "\<exists>h. ApiHandlers_match reg m u = Inr (Some h)"
  then obtain h where "ApiHandlers_match reg m u = Inr (Some h)" ..
  from match_registered[OF assms this] show "(m, u) \<in> handler_key ` set (registered reg)"
    by (auto simp: handler_key_def image_iff)
qed

lemma registry_inv_unique:
  assumes "registry_inv reg"
  shows "at_most_one_per_key reg"
proof -
  have gen: "distinct ms \<Longrightarrow> distinct (map handler_key (concat (map (array_of reg) ms)))" for ms
  proof (induction ms)
    case Nil
    then show ?case by simp
  next
    case (Cons m ms)
    have tag: "\<forall>h\<in>set (array_of reg m'). method h = m'" for m'
      using assms by (auto simp: registry_inv_def array_of_mem)
    have d: "distinct (map url (array_of reg m))"
      using assms by (cases "handlersByMethod reg m") (auto simp: registry_inv_def array_of_def)
    have "distinct (map handler_key (array_of reg m))"
    proof -
      have "inj_on handler_key (set (array_of reg m))"
        using d by (auto simp: inj_on_def handler_key_def distinct_map)
      with d show ?thesis by (simp add: distinct_map)
    qed
    moreover have "handler_key ` set (array_of reg m) \<inter>
                   handler_key ` (\<Union>m'\<in>set ms. set (array_of reg m')) = {}"
      using tag Cons.prems by (auto simp: handler_key_def)
    ultimately show ?case using Cons by simp
  qed
  have "distinct http_methods" by (simp add: http_methods_def)
  from gen[OF this] show ?thesis by (simp add: at_most_one_per_key_def registered_def)
qed

lemma match_count_one:
  assumes "registry_inv reg" and "ApiHandlers_match reg (method h) (url h) = Inr (Some x)"
  shows "length (filter (\<lambda>y. handler_key y = handler_key h) (registered reg)) = 1"
proof -
  from match_registered[OF assms] have x: "x \<in> set (registered reg)"
    and k: "handler_key x = handler_key h"
    by (simp_all add: handler_key_def)
  from registry_inv_unique[OF assms(1)] have "distinct (map handler_key (registered reg))"
    by (simp add: at_most_one_per_key_def)
  from count_one[OF this x] k show ?thesis by simp
qed

lemma put_behaviour:
  assumes "registry_inv reg" and "ApiHandlers_put reg h = Inr reg'"
  shows "(\<forall>m. m \<noteq> method h \<longrightarrow> array_of reg' m = array_of reg m) \<and>
         (if handler_key h \<in> handler_key ` set (registered reg)
          then \<exists>i<length (array_of reg (method h)).
                 handler_key (array_of reg (method h) ! i) = handler_key h \<and>
                 array_of reg' (method h) = (array_of reg (method h))[i := h]
          else array_of reg' (method h) = array_of reg (method h) @ [h])"
proof -
  from put_array[OF assms(2)] obtain hs where
    hs: "handlersByMethod reg (method h) = Some hs" and
    reg': "handlersByMethod reg' = (handlersByMethod reg)(method h \<mapsto>
              (if findIndex (\<lambda>x. url x = url h) hs = -1 then hs @ [h]
               else hs[nat (findIndex (\<lambda>x. url x = url h) hs) := h]))"
    by blast
  let ?i = "findIndex (\<lambda>x. url x = url h) hs"
  have old: "array_of reg (method h) = hs" by (rule array_of_Some[OF hs])
  have new: "array_of reg' (method h) = (if ?i = -1 then hs @ [h] else hs[nat ?i := h])"
    by (simp add: array_of_def reg')
  have other: "\<forall>m. m \<noteq> method h \<longrightarrow> array_of reg' m = array_of reg m"
    by (simp add: array_of_def reg')
  from assms(1) hs have tag: "\<forall>x\<in>set hs. method x = method h"
    and valid: "method h \<in> set http_methods"
    by (auto simp: registry_inv_def)
  have present: "handler_key h \<in> handler_key ` set (registered reg) \<longleftrightarrow> (\<exists>x\<in>set hs. url x = url h)"
  proof
    assume "handler_key h \<in> handler_key ` set (registered reg)"
    then obtain x where x: "x \<in> set (registered reg)" and k: "method x = method h" "url x = url h"
      by (auto simp: handler_key_def)
    from registered_array[OF assms(1) x] k(1) hs have "x \<in> set hs" by auto
    with k(2) show "\<exists>x\<in>set hs. url x = url h" by blast
  next
    assume "\<exists>x\<in>set hs. url x = url h"
    then obtain x where x: "x \<in> set hs" and u: "url x = url h" by blast
    from x tag have m: "method x = method h" by simp
    from x hs valid have "x \<in> set (registered reg)"
      by (auto simp: set_registered array_of_mem)
    moreover from m u have "handler_key x = handler_key h" by (simp add: handler_key_def)
    ultimately show "handler_key h \<in> handler_key ` set (registered reg)"
      by (metis image_eqI)
  qed
  show ?thesis
  proof (cases "?i = -1")
    case True
    then have "\<not> (\<exists>x\<in>set hs. url x = url h)" by (simp add: findIndex_none)
    with present True old new other show ?thesis by simp
  next
    case False
    from findIndex_hit[OF False] have lt: "nat ?i < length hs" and u: "url (hs ! nat ?i) = url h"
      by simp_all
    from lt tag have m: "method (hs ! nat ?i) = method h" by simp
    from lt u have "\<exists>x\<in>set hs. url x = url h" by (metis nth_mem)
    moreover from lt u m
    have "\<exists>i<length hs. handler_key (hs ! i) = handler_key h \<and> hs[nat ?i := h] = hs[i := h]"
      by (auto simp: handler_key_def)
    ultimately show ?thesis using present False old new other by simp
  qed
qed

subsection \<open>The backend: what each operation leaves unchanged\<close>

lemma initialize_Inr:
  assumes "initialize s H = Inr b"
  shows "\<exists>reg. ApiHandlers_constructor H = Inr reg \<and>
           b = \<lparr> apiHandlers = 0, state = 0, initialState = 1, initialHandlers = 1,
                 stateStore = [s, s], handlerStore = [reg, reg] \<rparr>"
  using assms
  by (cases "ApiHandlers_constructor H") (simp_all add: initialize_def clone_def)

lemma initialize_facts:
  assumes "initialize s H = Inr b"
  shows "separated b" and "ApiHandlers_constructor H = Inr (current_registry b)"
    and "initial_registry b = current_registry b"
    and "current_state b = s" and "initial_state b = s"
  using initialize_Inr[OF assms]
  by (auto simp: separated_def current_registry_def initial_registry_def
        current_state_def initial_state_def)

lemma initialize_succeeds:
  assumes "\<forall>h\<in>set H. method h \<in> set http_methods"
  shows "\<exists>b. initialize s H = Inr b"
proof -
  from put_all_succeeds[OF registry_inv_fields assms] obtain reg
    where "ApiHandlers_constructor H = Inr reg"
    by (auto simp: ApiHandlers_constructor_def)
  then show ?thesis by (simp add: initialize_def clone_def)
qed

lemma putHandlers_frame:
  "putHandlers b hs = (r, b') \<Longrightarrow>
     apiHandlers b' = apiHandlers b \<and> state b' = state b \<and>
     initialState b' = initialState b \<and> initialHandlers b' = initialHandlers b \<and>
     stateStore b' = stateStore b \<and>
     length (handlerStore b') = length (handlerStore b) \<and>
     (\<forall>a. a \<noteq> apiHandlers b \<longrightarrow> handlerStore b' ! a = handlerStore b ! a)"
proof (induction hs arbitrary: b)
  case Nil
  then show ?case by simp
next
  case (Cons h hs)
  show ?case
  proof (cases "ApiHandlers_put (handlerStore b ! apiHandlers b) h")
    case (Inl e)
    with Cons.prems show ?thesis by simp
  next
    case (Inr reg)
    let ?b1 = "b\<lparr> handlerStore := (handlerStore b)[apiHandlers b := reg] \<rparr>"
    from Inr Cons.prems have "putHandlers ?b1 hs = (r, b')" by simp
    from Cons.IH[OF this] show ?thesis by simp
  qed
qed

lemma putHandlers_separated:
  "separated b \<Longrightarrow> separated (snd (putHandlers b hs))"
  using putHandlers_frame[of b hs "fst (putHandlers b hs)" "snd (putHandlers b hs)"]
  by (simp add: separated_def)

lemma putHandlers_initial_registry:
  "separated b \<Longrightarrow> initial_registry (snd (putHandlers b hs)) = initial_registry b"
  using putHandlers_frame[of b hs "fst (putHandlers b hs)" "snd (putHandlers b hs)"]
  by (simp add: separated_def initial_registry_def)

lemma putHandlers_states:
  "current_state (snd (putHandlers b hs)) = current_state b \<and>
   initial_state (snd (putHandlers b hs)) = initial_state b"
  using putHandlers_frame[of b hs "fst (putHandlers b hs)" "snd (putHandlers b hs)"]
  by (simp add: current_state_def initial_state_def)

lemma putHandlers_put_all:
  "separated b \<Longrightarrow> putHandlers b hs = (None, b') \<Longrightarrow>
     put_all (current_registry b) hs = Inr (current_registry b')"
proof (induction hs arbitrary: b)
  case Nil
  then show ?case by simp
next
  case (Cons h hs)
  show ?case
  proof (cases "ApiHandlers_put (handlerStore b ! apiHandlers b) h")
    case (Inl e)
    with Cons.prems show ?thesis by simp
  next
    case (Inr reg)
    let ?b1 = "b\<lparr> handlerStore := (handlerStore b)[apiHandlers b := reg] \<rparr>"
    from Inr Cons.prems have run: "putHandlers ?b1 hs = (None, b')" by simp
    from Cons.prems have sep: "separated ?b1" and cur: "current_registry ?b1 = reg"
      by (simp_all add: separated_def current_registry_def)
    from Cons.IH[OF sep run] cur Inr show ?thesis
      by (simp add: current_registry_def)
  qed
qed

lemma putHandlers_succeeds:
  "separated b \<Longrightarrow> put_all (current_registry b) hs = Inr reg \<Longrightarrow>
     fst (putHandlers b hs) = None \<and> current_registry (snd (putHandlers b hs)) = reg"
proof (induction hs arbitrary: b)
  case Nil
  then show ?case by simp
next
  case (Cons h hs)
  from Cons.prems obtain r1 where r1: "ApiHandlers_put (current_registry b) h = Inr r1"
    and r2: "put_all r1 hs = Inr reg"
    by (auto split: sum.splits)
  let ?b1 = "b\<lparr> handlerStore := (handlerStore b)[apiHandlers b := r1] \<rparr>"
  from Cons.prems have sep: "separated ?b1" and cur: "current_registry ?b1 = r1"
    by (simp_all add: separated_def current_registry_def)
  from Cons.IH[OF sep] cur r2 r1 show ?case
    by (simp add: current_registry_def)
qed

text \<open>A property of the current registry that \<open>put\<close> preserves is preserved by
  \<open>putHandlers\<close>, also when it ends with an exception.\<close>

lemma putHandlers_preserves:
  assumes step: "\<And>reg h reg'. P reg \<Longrightarrow> ApiHandlers_put reg h = Inr reg' \<Longrightarrow> P reg'"
  shows "separated b \<Longrightarrow> P (current_registry b) \<Longrightarrow> P (current_registry (snd (putHandlers b hs)))"
proof (induction hs arbitrary: b)
  case Nil
  then show ?case by simp
next
  case (Cons h hs)
  show ?case
  proof (cases "ApiHandlers_put (handlerStore b ! apiHandlers b) h")
    case (Inl e)
    with Cons.prems show ?thesis by simp
  next
    case (Inr reg)
    let ?b1 = "b\<lparr> handlerStore := (handlerStore b)[apiHandlers b := reg] \<rparr>"
    from Cons.prems have sep: "separated ?b1" and cur: "current_registry ?b1 = reg"
      by (simp_all add: separated_def current_registry_def)
    from Cons.prems(2) Inr have "P reg" by (auto simp: current_registry_def intro: step)
    with Cons.IH[OF sep] cur Inr show ?thesis by simp
  qed
qed

lemma putHandlers_match:
  assumes "separated b" and "registry_inv (current_registry b)"
      and "\<forall>h\<in>set hs. method h \<in> set http_methods"
  shows "fst (putHandlers b hs) = None \<and>
         ApiHandlers_match (current_registry (snd (putHandlers b hs))) m u =
           (case find (\<lambda>h. method h = m \<and> url h = u) (rev hs) of
              Some h \<Rightarrow> Inr (Some h)
            | None \<Rightarrow> ApiHandlers_match (current_registry b) m u)"
proof -
  from put_all_succeeds[OF assms(2,3)] obtain reg
    where reg: "put_all (current_registry b) hs = Inr reg" ..
  from putHandlers_succeeds[OF assms(1) reg] put_all_match[OF reg, of m u]
  show ?thesis by simp
qed

lemma resetHandlers_facts:
  assumes "separated b"
  shows "separated (resetHandlers b)"
    and "current_registry (resetHandlers b) = initial_registry b"
    and "initial_registry (resetHandlers b) = initial_registry b"
    and "current_state (resetHandlers b) = current_state b"
    and "initial_state (resetHandlers b) = initial_state b"
  using assms
  by (simp_all add: separated_def resetHandlers_def clone_def current_registry_def
        initial_registry_def current_state_def initial_state_def nth_append)

lemma resetState_facts:
  assumes "separated b"
  shows "separated (resetState b)"
    and "current_state (resetState b) = initial_state b"
    and "initial_state (resetState b) = initial_state b"
    and "current_registry (resetState b) = current_registry b"
    and "initial_registry (resetState b) = initial_registry b"
  using assms
  by (simp_all add: separated_def resetState_def clone_def current_registry_def
        initial_registry_def current_state_def initial_state_def nth_append)

lemma backend_handle_alt:
  "backend_handle b r =
     (case ApiHandlers_match (current_registry b) (req_method r) (req_url r) of
        Inl e \<Rightarrow> Inl e
      | Inr None \<Rightarrow> Inl NoHandlerFound
      | Inr (Some handler) \<Rightarrow> Inr (Observable handler r))"
  by (simp add: backend_handle_def current_registry_def)

lemma fst_subscribe:
  "fst (subscribe (Observable h r) b) = deliver (fst (handle h r responseBuilder (current_state b)))"
  by (simp add: current_state_def split: prod.splits)

lemma subscribe_facts:
  assumes "separated b"
  shows "separated (snd (subscribe obs b))"
    and "initial_state (snd (subscribe obs b)) = initial_state b"
    and "current_registry (snd (subscribe obs b)) = current_registry b"
    and "initial_registry (snd (subscribe obs b)) = initial_registry b"
  using assms
  by (cases obs; simp add: separated_def current_registry_def
        initial_registry_def current_state_def initial_state_def split: prod.splits)+

lemma snd_request:
  "snd (request b req) =
     (case backend_handle b req of Inl e \<Rightarrow> b | Inr obs \<Rightarrow> snd (subscribe obs b))"
  by (simp add: request_def split: sum.splits prod.splits)

lemma request_facts:
  assumes "separated b"
  shows "separated (snd (request b req))"
    and "initial_state (snd (request b req)) = initial_state b"
    and "current_registry (snd (request b req)) = current_registry b"
    and "initial_registry (snd (request b req)) = initial_registry b"
  using subscribe_facts[OF assms] assms
  by (simp_all add: snd_request split: sum.splits)

lemma request_found:
  assumes "backend_handle b r = Inr (Observable h r)"
  shows "fst (request b r) = Inr (deliver (fst (handle h r responseBuilder (current_state b))))"
    and "separated b \<Longrightarrow>
         current_state (snd (request b r)) = snd (handle h r responseBuilder (current_state b))"
  using assms
  by (simp_all add: request_def current_state_def separated_def split: prod.splits)

subsection \<open>Runs\<close>

lemma run_Nil: "run b [] = b"
  by (simp add: run_def)

lemma run_snoc: "run b (ops @ [opn]) = exec (run b ops) opn"
  by (simp add: run_def)

lemma exec_inv:
  assumes "backend_inv R S b" and "registry_inv R"
  shows "backend_inv R S (exec b opn)"
proof (cases opn)
  case (PutHandlers hs)
  from assms have sep: "separated b" and inv: "registry_inv (current_registry b)"
    by (simp_all add: backend_inv_def)
  have "registry_inv (current_registry (snd (putHandlers b hs)))"
    by (rule putHandlers_preserves[where P = registry_inv, OF put_preserves_inv sep inv])
  with assms PutHandlers show ?thesis
    by (simp add: backend_inv_def putHandlers_separated putHandlers_initial_registry
          putHandlers_states)
next
  case ResetHandlers
  with assms show ?thesis by (simp add: backend_inv_def resetHandlers_facts)
next
  case ResetState
  with assms show ?thesis by (simp add: backend_inv_def resetState_facts)
next
  case (Request req)
  with assms show ?thesis by (simp add: backend_inv_def request_facts)
qed

lemma run_inv:
  "backend_inv R S b \<Longrightarrow> registry_inv R \<Longrightarrow> backend_inv R S (run b ops)"
  unfolding run_def
  by (induction ops arbitrary: b) (simp_all add: exec_inv)

lemma initialize_inv:
  assumes "initialize s H = Inr b"
  shows "backend_inv (current_registry b) s b" and "registry_inv (current_registry b)"
  using initialize_facts[OF assms] constructor_inv[of H "current_registry b"]
  by (simp_all add: backend_inv_def)

lemma reachable_inv:
  assumes "initialize s H = Inr b0"
  shows "backend_inv (current_registry b0) s (run b0 ops)"
  by (rule run_inv[OF initialize_inv[OF assms]])

lemma initialized_match:
  assumes "initialize s H = Inr b"
  shows "ApiHandlers_match (current_registry b) m u =
           (case find (\<lambda>h. method h = m \<and> url h = u) (rev H) of
              Some h \<Rightarrow> Inr (Some h)
            | None \<Rightarrow> if m \<in> set Object_prototype_keys then Inl TypeError else Inr None)"
proof -
  from initialize_facts(2)[OF assms]
  have "put_all ApiHandlers_fields H = Inr (current_registry b)"
    by (simp add: ApiHandlers_constructor_def)
  from put_all_match[OF this, of m u] show ?thesis
    by (simp only: fields_match)
qed

text \<open>In a reachable registry a method that is neither one of the seven nor a
  property name of \<^verbatim>\<open>Object.prototype\<close> has no handler.\<close>

lemma match_unknown_method:
  assumes "initialize s H = Inr b0"
      and "m \<notin> set http_methods" and "m \<notin> set Object_prototype_keys"
  shows "ApiHandlers_match (current_registry (run b0 ops)) m u = Inr None"
proof -
  from reachable_inv[OF assms(1), of ops]
  have "registry_inv (current_registry (run b0 ops))" by (simp add: backend_inv_def)
  with assms(2) have "handlersByMethod (current_registry (run b0 ops)) m = None"
    by (auto simp: registry_inv_def)
  with assms(3) show ?thesis by (simp add: match_no_array)
qed

text \<open>Every property name of \<^verbatim>\<open>Object.prototype\<close> has a lower-case letter, so an
  upper-cased method is none of them.\<close>

lemma upper_cased_not_inherited:
  assumes "upper_cased m"
  shows "m \<notin> set Object_prototype_keys"
proof
  assume "m \<in> set Object_prototype_keys"
  then have "CHR ''e'' \<in> set m \<or> CHR ''o'' \<in> set m"
    by (auto simp: Object_prototype_keys_def)
  moreover have "CHR ''e'' \<in> set lower_case_letters" "CHR ''o'' \<in> set lower_case_letters"
    by (simp_all add: lower_case_letters_def)
  ultimately show False using assms by (auto simp: upper_cased_def)
qed

text \<open>On a name that the object inherits, which no request carries, the lookup
  is not \<^verbatim>\<open>undefined\<close> and \<^verbatim>\<open>handlers.find\<close> is not a function.\<close>

lemma match_inherited_name:
  assumes "registry_inv reg" and "m \<in> set Object_prototype_keys"
  shows "ApiHandlers_match reg m u = Inl TypeError"
proof -
  from assms(2) have "m \<notin> set http_methods"
    using http_methods_not_inherited by blast
  with assms(1) have "handlersByMethod reg m = None"
    by (auto simp: registry_inv_def)
  with assms(2) show ?thesis by (simp add: match_no_array)
qed

lemma run_putHandlers_found:
  assumes "separated b" and "registry_inv (current_registry b)"
      and "\<forall>h\<in>set hs. method h \<in> set http_methods"
      and "find (\<lambda>h. method h = m \<and> url h = u) (rev hs) = Some h"
  shows "ApiHandlers_match (current_registry (run b [PutHandlers hs])) m u = Inr (Some h)"
  using putHandlers_match[OF assms(1-3), of m u] assms(4)
  by (simp add: run_def)

lemma run_putHandlers_not_found:
  assumes "separated b" and "registry_inv (current_registry b)"
      and "\<forall>h\<in>set hs. method h \<in> set http_methods"
      and "find (\<lambda>h. method h = m \<and> url h = u) (rev hs) = None"
  shows "ApiHandlers_match (current_registry (run b [PutHandlers hs])) m u =
         ApiHandlers_match (current_registry b) m u"
  using putHandlers_match[OF assms(1-3), of m u] assms(4)
  by (simp add: run_def)

subsection \<open>The example backend\<close>

lemmas example_defs = alice_bob_def get_users_def put_user_def push_user_def teapot_def
  error_200_def missing_def nothing_def example_request_def handlerBuilder_get_def handlerBuilder_post_def
  handlerBuilder_delete_def handlerBuilder_patch_def

lemma example_backend_initialized: "initialize alice_bob [get_users] = Inr example_backend"
proof -
  have "\<forall>h\<in>set [get_users]. method h \<in> set http_methods"
    by (simp add: example_defs http_methods_def)
  from initialize_succeeds[OF this, of alice_bob] show ?thesis
    by (auto simp: example_backend_def)
qed

lemma example_backend_facts:
  shows "separated example_backend"
    and "registry_inv (current_registry example_backend)"
    and "current_state example_backend = alice_bob"
    and "ApiHandlers_match (current_registry example_backend) ''GET'' ''/users'' = Inr (Some get_users)"
proof -
  note b = example_backend_initialized
  from initialize_inv(1)[OF b] show "separated example_backend"
    by (simp add: backend_inv_def)
  show "registry_inv (current_registry example_backend)" by (rule initialize_inv(2)[OF b])
  show "current_state example_backend = alice_bob" by (rule initialize_facts(4)[OF b])
  have "find (\<lambda>h. method h = ''GET'' \<and> url h = ''/users'') (rev [get_users]) = Some get_users"
    by (simp add: example_defs)
  then show "ApiHandlers_match (current_registry example_backend) ''GET'' ''/users'' = Inr (Some get_users)"
    by (simp only: initialized_match[OF b] option.case)
qed

lemma example_put_user:
  "ApiHandlers_match (current_registry (run example_backend [PutHandlers [put_user]]))
     ''GET'' ''/users'' = Inr (Some put_user)"
proof -
  have valid: "\<forall>h\<in>set [put_user]. method h \<in> set http_methods"
    by (simp add: example_defs http_methods_def)
  have f: "find (\<lambda>h. method h = ''GET'' \<and> url h = ''/users'') (rev [put_user]) = Some put_user"
    by (simp add: example_defs)
  show ?thesis
    by (rule run_putHandlers_found[OF example_backend_facts(1,2) valid f])
qed

lemma example_push_run:
  "current_state (run example_backend
      [PutHandlers [push_user], Request (example_request ''GET'' ''/users'')]) =
   alice_bob @ [(1000, ''override User'')]"
proof -
  let ?b1 = "run example_backend [PutHandlers [push_user]]"
  let ?rq = "example_request ''GET'' ''/users''"
  note b = example_backend_initialized
  have valid: "\<forall>h\<in>set [push_user]. method h \<in> set http_methods"
    by (simp add: example_defs http_methods_def)
  have f: "find (\<lambda>h. method h = ''GET'' \<and> url h = ''/users'') (rev [push_user]) = Some push_user"
    by (simp add: example_defs)
  have m: "ApiHandlers_match (current_registry ?b1) ''GET'' ''/users'' = Inr (Some push_user)"
    by (rule run_putHandlers_found[OF example_backend_facts(1,2) valid f])
  have rq: "req_method ?rq = ''GET''" "req_url ?rq = ''/users''"
    by (simp_all add: example_request_def)
  have h: "backend_handle ?b1 ?rq = Inr (Observable push_user ?rq)"
    by (simp only: backend_handle_alt rq m sum.case option.case)
  from reachable_inv[OF b, of "[PutHandlers [push_user]]"]
  have sep: "separated ?b1" by (simp add: backend_inv_def)
  have "?b1 = snd (putHandlers example_backend [push_user])"
    using run_snoc[of example_backend "[]" "PutHandlers [push_user]"]
    by (simp only: run_Nil append_Nil exec.simps)
  then have st1: "current_state ?b1 = alice_bob"
    using putHandlers_states[of example_backend "[push_user]"] example_backend_facts(3)
    by (simp only:)
  have "snd (handle push_user ?rq responseBuilder alice_bob) = alice_bob @ [(1000, ''override User'')]"
    by (simp add: push_user_def handlerBuilder_get_def)
  with request_found(2)[OF h sep] st1
  have "current_state (snd (request ?b1 ?rq)) = alice_bob @ [(1000, ''override User'')]"
    by (simp only:)
  moreover have "run example_backend [PutHandlers [push_user], Request ?rq] = snd (request ?b1 ?rq)"
    using run_snoc[of example_backend "[PutHandlers [push_user]]" "Request ?rq"]
    by (simp only: append_Cons append_Nil exec.simps)
  ultimately show ?thesis by (simp only:)
qed

section \<open>The claims\<close>

subsection \<open>Validation of the handler's outcome\<close>

text \<open>
  Claim C1. When \<open>handle\<close> has found a handler and the handler, invoked on the
  current state, returns \<open>stubResponse\<close>: if \<open>stubResponse\<close> violates the outcome
  invariant (a Success with a status outside [200,300), a Failure with a status
  inside, or a value that is neither), the observer gets the Sent notification and
  then an exception, never the outcome and never another outcome in its place;
  if it satisfies the invariant, a Success is delivered unchanged with
  \<open>next\<close> and the stream completes, and a Failure is delivered unchanged with
  \<open>error\<close>. The exception is raised by the Observable that \<open>handle\<close> returns,
  when it is subscribed.
\<close>

theorem handle_validates_outcome:
  assumes "backend_handle this r = Inr (Observable handler r)"
      and "handle handler r responseBuilder (current_state this) = (stubResponse, st)"
  shows "(\<not> outcome_invariant stubResponse \<longrightarrow>
            (\<exists>e. fst (request this r) = Inr ([Sent], Threw e))) \<and>
         (\<forall>b s. stubResponse = HttpResponse b s \<and> outcome_invariant stubResponse \<longrightarrow>
            fst (request this r) = Inr ([Sent, Response stubResponse], Completed)) \<and>
         (\<forall>b s. stubResponse = HttpErrorResponse b s \<and> outcome_invariant stubResponse \<longrightarrow>
            fst (request this r) = Inr ([Sent], Errored stubResponse))"
proof -
  from assms have "fst (request this r) = Inr (deliver stubResponse)"
    by (simp add: request_def current_state_def split: prod.splits)
  then show ?thesis
    by (cases stubResponse) (simp_all add: outcome_invariant_def statusOk_def)
qed

theorem handle_validates_outcome_witness:
  "\<exists>b. initialize alice_bob [get_users, teapot, error_200, missing, nothing] = Inr b \<and>
     fst (request b (example_request ''GET'' ''/users'')) =
       Inr ([Sent, Response (HttpResponse alice_bob 200)], Completed) \<and>
     fst (request b (example_request ''DELETE'' ''/users'')) = Inr ([Sent], Errored (HttpErrorResponse (StringError ''not found'') 404)) \<and>
     (\<exists>e. fst (request b (example_request ''GET'' ''/teapot'')) = Inr ([Sent], Threw e)) \<and>
     (\<exists>e. fst (request b (example_request ''POST'' ''/users'')) = Inr ([Sent], Threw e)) \<and>
     (\<exists>e. fst (request b (example_request ''PATCH'' ''/users'')) = Inr ([Sent], Threw e))"
proof -
  let ?H = "[get_users, teapot, error_200, missing, nothing]"
  have "\<forall>h\<in>set ?H. method h \<in> set http_methods"
    by (simp add: example_defs http_methods_def)
  from initialize_succeeds[OF this] obtain b where b: "initialize alice_bob ?H = Inr b" ..
  have st: "current_state b = alice_bob" by (rule initialize_facts(4)[OF b])
  have h1: "backend_handle b (example_request ''GET'' ''/users'') = Inr (Observable get_users (example_request ''GET'' ''/users''))"
    by (simp add: backend_handle_alt initialized_match[OF b] example_defs)
  have h2: "backend_handle b (example_request ''GET'' ''/teapot'') = Inr (Observable teapot (example_request ''GET'' ''/teapot''))"
    by (simp add: backend_handle_alt initialized_match[OF b] example_defs)
  have h3: "backend_handle b (example_request ''POST'' ''/users'') = Inr (Observable error_200 (example_request ''POST'' ''/users''))"
    by (simp add: backend_handle_alt initialized_match[OF b] example_defs)
  have h4: "backend_handle b (example_request ''DELETE'' ''/users'') = Inr (Observable missing (example_request ''DELETE'' ''/users''))"
    by (simp add: backend_handle_alt initialized_match[OF b] example_defs)
  have h5: "backend_handle b (example_request ''PATCH'' ''/users'') = Inr (Observable nothing (example_request ''PATCH'' ''/users''))"
    by (simp add: backend_handle_alt initialized_match[OF b] example_defs)
  have r1: "handle get_users (example_request ''GET'' ''/users'') responseBuilder (current_state b) =
              (HttpResponse alice_bob 200, alice_bob)"
    by (simp add: st get_users_def handlerBuilder_get_def responseBuilder_def)
  have r2: "handle teapot (example_request ''GET'' ''/teapot'') responseBuilder (current_state b) =
              (HttpResponse [] 418, alice_bob)"
    by (simp add: st teapot_def handlerBuilder_get_def responseBuilder_def)
  have r3: "handle error_200 (example_request ''POST'' ''/users'') responseBuilder (current_state b) =
              (HttpErrorResponse (StringError ''created'') 200, alice_bob)"
    by (simp add: st error_200_def handlerBuilder_post_def responseBuilder_def)
  have r4: "handle missing (example_request ''DELETE'' ''/users'') responseBuilder (current_state b) =
              (HttpErrorResponse (StringError ''not found'') 404, alice_bob)"
    by (simp add: st missing_def handlerBuilder_delete_def responseBuilder_def)
  have r5: "handle nothing (example_request ''PATCH'' ''/users'') responseBuilder (current_state b) =
              (Nullish, alice_bob)"
    by (simp add: st nothing_def handlerBuilder_patch_def)
  from handle_validates_outcome[OF h1 r1] handle_validates_outcome[OF h2 r2]
    handle_validates_outcome[OF h3 r3] handle_validates_outcome[OF h4 r4]
    handle_validates_outcome[OF h5 r5] b
  show ?thesis
    by (simp add: outcome_invariant_def)
qed

subsection \<open>Requests without a handler\<close>

text \<open>
  Claim C2. In every backend reached from \<open>initialize\<close>, for every request (its
  method upper-cased, as the method of every \<^verbatim>\<open>HttpRequest\<close> is) whose
  (method, url) pair has no handler registered in the current registry, \<open>handle\<close>
  raises the error for a missing handler: no Observable is returned, so there is
  no notification, no Failure outcome and no partial outcome, and the backend,
  with its current state and registry, is as it was.
\<close>

theorem handle_unregistered:
  assumes "initialize s H = Inr b0"
      and "upper_cased (req_method r)"
      and "(req_method r, req_url r) \<notin> handler_key ` set (registered (current_registry (run b0 ops)))"
  shows "backend_handle (run b0 ops) r = Inl NoHandlerFound \<and>
         request (run b0 ops) r = (Inl NoHandlerFound, run b0 ops)"
proof -
  from reachable_inv[OF assms(1), of ops]
  have "registry_inv (current_registry (run b0 ops))" by (simp add: backend_inv_def)
  from match_unregistered[OF this assms(3)] upper_cased_not_inherited[OF assms(2)]
  have "backend_handle (run b0 ops) r = Inl NoHandlerFound"
    by (simp add: backend_handle_alt)
  then show ?thesis by (simp add: request_def)
qed

theorem handle_unregistered_witness:
  "request (run example_backend [PutHandlers [teapot]]) (example_request ''GET'' ''/projects'') =
     (Inl NoHandlerFound, run example_backend [PutHandlers [teapot]]) \<and>
   request (run example_backend [PutHandlers [teapot]]) (example_request ''TRACE'' ''/users'') =
     (Inl NoHandlerFound, run example_backend [PutHandlers [teapot]])"
proof -
  note b = example_backend_initialized
  let ?b = "run example_backend [PutHandlers [teapot]]"
  note sep = example_backend_facts(1) and rinv0 = example_backend_facts(2)
  have valid: "\<forall>h\<in>set [teapot]. method h \<in> set http_methods"
    by (simp add: example_defs http_methods_def)
  have f1: "find (\<lambda>h. method h = ''GET'' \<and> url h = ''/projects'') (rev [teapot]) = None"
    and f2: "find (\<lambda>h. method h = ''TRACE'' \<and> url h = ''/users'') (rev [teapot]) = None"
    by (simp_all add: example_defs)
  have m1: "ApiHandlers_match (current_registry example_backend) ''GET'' ''/projects'' = Inr None"
    and m2: "ApiHandlers_match (current_registry example_backend) ''TRACE'' ''/users'' = Inr None"
    by (simp_all add: initialized_match[OF b] example_defs Object_prototype_keys_def)
  from reachable_inv[OF b, of "[PutHandlers [teapot]]"]
  have rinv: "registry_inv (current_registry ?b)" by (simp add: backend_inv_def)
  from run_putHandlers_not_found[OF sep rinv0 valid f1] m1
  have "ApiHandlers_match (current_registry ?b) ''GET'' ''/projects'' = Inr None"
    by simp
  with registered_key_iff[OF rinv, of "''GET''" "''/projects''"]
  have k1: "(req_method (example_request ''GET'' ''/projects''),
             req_url (example_request ''GET'' ''/projects''))
             \<notin> handler_key ` set (registered (current_registry ?b))"
    by (simp add: example_request_def)
  from run_putHandlers_not_found[OF sep rinv0 valid f2] m2
  have "ApiHandlers_match (current_registry ?b) ''TRACE'' ''/users'' = Inr None"
    by simp
  with registered_key_iff[OF rinv, of "''TRACE''" "''/users''"]
  have k2: "(req_method (example_request ''TRACE'' ''/users''),
             req_url (example_request ''TRACE'' ''/users''))
             \<notin> handler_key ` set (registered (current_registry ?b))"
    by (simp add: example_request_def)
  have u1: "upper_cased (req_method (example_request ''GET'' ''/projects''))"
    and u2: "upper_cased (req_method (example_request ''TRACE'' ''/users''))"
    by (simp_all add: example_request_def upper_cased_def lower_case_letters_def)
  from handle_unregistered[OF b u1 k1] handle_unregistered[OF b u2 k2] show ?thesis by simp
qed

subsection \<open>Lookup after \<open>initialize\<close>\<close>

text \<open>
  Claim C3. When the handlers of \<open>H\<close> have pairwise distinct (method, url) pairs
  and \<open>initialize\<close> returns, \<open>match\<close> on the method and url of a handler of \<open>H\<close>
  returns that handler; and a url is compared as it is: for a method of the
  closed set and a url that is not, character by character, the url of a handler
  of \<open>H\<close> with that method, \<open>match\<close> returns no handler.
\<close>

theorem initialize_then_match:
  assumes "distinct (map handler_key H)" and "initialize s H = Inr b"
  shows "(\<forall>h\<in>set H. ApiHandlers_match (current_registry b) (method h) (url h) = Inr (Some h)) \<and>
         (\<forall>m u. m \<in> set http_methods \<and> (m, u) \<notin> handler_key ` set H \<longrightarrow>
            ApiHandlers_match (current_registry b) m u = Inr None)"
proof (intro conjI ballI allI impI)
  fix h assume h: "h \<in> set H"
  from find_rev_distinct[OF assms(1) h]
  have "find (\<lambda>x. method x = method h \<and> url x = url h) (rev H) = Some h"
    by (simp add: handler_key_def)
  then show "ApiHandlers_match (current_registry b) (method h) (url h) = Inr (Some h)"
    by (simp add: initialized_match[OF assms(2)])
next
  fix m u assume mu: "m \<in> set http_methods \<and> (m, u) \<notin> handler_key ` set H"
  then have "\<forall>x\<in>set (rev H). \<not> (method x = m \<and> url x = u)"
    by (auto simp: handler_key_def image_iff)
  then have "find (\<lambda>x. method x = m \<and> url x = u) (rev H) = None"
    by (simp add: find_None_iff)
  with mu show "ApiHandlers_match (current_registry b) m u = Inr None"
    by (simp add: initialized_match[OF assms(2)] http_methods_not_inherited)
qed

theorem initialize_then_match_witness:
  "\<exists>b. initialize alice_bob [get_users, teapot, error_200] = Inr b \<and>
     ApiHandlers_match (current_registry b) ''GET'' ''/users'' = Inr (Some get_users) \<and>
     ApiHandlers_match (current_registry b) ''GET'' ''/teapot'' = Inr (Some teapot) \<and>
     ApiHandlers_match (current_registry b) ''POST'' ''/users'' = Inr (Some error_200) \<and>
     ApiHandlers_match (current_registry b) ''GET'' ''/users/'' = Inr None \<and>
     ApiHandlers_match (current_registry b) ''GET'' ''/Users'' = Inr None \<and>
     ApiHandlers_match (current_registry b) ''GET'' ''/users?id=1'' = Inr None"
proof -
  let ?H = "[get_users, teapot, error_200]"
  have d: "distinct (map handler_key ?H)"
    by (simp add: handler_key_def example_defs)
  have "\<forall>h\<in>set ?H. method h \<in> set http_methods"
    by (simp add: example_defs http_methods_def)
  from initialize_succeeds[OF this] obtain b where b: "initialize alice_bob ?H = Inr b" ..
  have k: "(''GET'', ''/users/'') \<notin> handler_key ` set ?H"
          "(''GET'', ''/Users'') \<notin> handler_key ` set ?H"
          "(''GET'', ''/users?id=1'') \<notin> handler_key ` set ?H"
    by (simp_all add: handler_key_def example_defs)
  have g: "''GET'' \<in> set http_methods" by (simp add: http_methods_def)
  have keys: "method get_users = ''GET''" "url get_users = ''/users''"
    "method teapot = ''GET''" "url teapot = ''/teapot''"
    "method error_200 = ''POST''" "url error_200 = ''/users''"
    by (simp_all add: example_defs)
  from initialize_then_match[OF d b] have
    1: "\<forall>h\<in>set ?H. ApiHandlers_match (current_registry b) (method h) (url h) = Inr (Some h)" and
    2: "\<And>m u. m \<in> set http_methods \<and> (m, u) \<notin> handler_key ` set ?H \<Longrightarrow>
            ApiHandlers_match (current_registry b) m u = Inr None"
    by blast+
  from 1 have "ApiHandlers_match (current_registry b) ''GET'' ''/users'' = Inr (Some get_users)"
    "ApiHandlers_match (current_registry b) ''GET'' ''/teapot'' = Inr (Some teapot)"
    "ApiHandlers_match (current_registry b) ''POST'' ''/users'' = Inr (Some error_200)"
    using keys by (metis list.set_intros(1,2))+
  with b 2[of "''GET''" "''/users/''"] 2[of "''GET''" "''/Users''"] 2[of "''GET''" "''/users?id=1''"] k g
  show ?thesis by blast
qed

subsection \<open>One handler per method and url\<close>

text \<open>
  Claim C4. In every backend reached from \<open>initialize\<close> by any sequence of
  operations, the current and the initial registry hold at most one handler per
  (method, url) pair. A \<open>put\<close> on such a registry keeps this; it leaves the
  arrays of the other methods as they are, and in the array of the handler's
  method it replaces, when the pair is already registered, the handler at the
  position of that pair and nothing else, and otherwise appends the handler at
  the end. After \<open>putHandlers\<close>, and after \<open>initialize\<close>, for every handler of the
  list given, the registry holds exactly one handler with its (method, url) pair,
  and \<open>match\<close> returns the last handler of the list with that pair.
\<close>

theorem one_handler_per_key:
  assumes "initialize s H = Inr b0"
  shows "at_most_one_per_key (current_registry (run b0 ops)) \<and>
         at_most_one_per_key (initial_registry (run b0 ops)) \<and>
         (\<forall>h reg'. ApiHandlers_put (current_registry (run b0 ops)) h = Inr reg' \<longrightarrow>
            at_most_one_per_key reg' \<and>
            (\<forall>m. m \<noteq> method h \<longrightarrow> array_of reg' m = array_of (current_registry (run b0 ops)) m) \<and>
            (if handler_key h \<in> handler_key ` set (registered (current_registry (run b0 ops)))
             then \<exists>i<length (array_of (current_registry (run b0 ops)) (method h)).
                    handler_key (array_of (current_registry (run b0 ops)) (method h) ! i) = handler_key h \<and>
                    array_of reg' (method h) =
                      (array_of (current_registry (run b0 ops)) (method h))[i := h]
             else array_of reg' (method h) =
                    array_of (current_registry (run b0 ops)) (method h) @ [h])) \<and>
         (\<forall>hs b' h. putHandlers (run b0 ops) hs = (None, b') \<and> h \<in> set hs \<longrightarrow>
            ApiHandlers_match (current_registry b') (method h) (url h) =
              Inr (Some (last (filter (\<lambda>x. handler_key x = handler_key h) hs))) \<and>
            length (filter (\<lambda>x. handler_key x = handler_key h) (registered (current_registry b'))) = 1) \<and>
         (\<forall>h\<in>set H.
            ApiHandlers_match (current_registry b0) (method h) (url h) =
              Inr (Some (last (filter (\<lambda>x. handler_key x = handler_key h) H))) \<and>
            length (filter (\<lambda>x. handler_key x = handler_key h) (registered (current_registry b0))) = 1)"
proof -
  let ?b = "run b0 ops"
  let ?reg = "current_registry ?b"
  from reachable_inv[OF assms, of ops]
  have sep: "separated ?b" and inv: "registry_inv ?reg"
    and ini: "initial_registry ?b = current_registry b0"
    by (simp_all add: backend_inv_def)
  have inv0: "registry_inv (current_registry b0)" by (rule initialize_inv(2)[OF assms])
  have 1: "at_most_one_per_key ?reg" by (rule registry_inv_unique[OF inv])
  have 2: "at_most_one_per_key (initial_registry ?b)"
    by (simp add: ini registry_inv_unique[OF inv0])
  have 3: "\<forall>h reg'. ApiHandlers_put ?reg h = Inr reg' \<longrightarrow>
            at_most_one_per_key reg' \<and>
            (\<forall>m. m \<noteq> method h \<longrightarrow> array_of reg' m = array_of ?reg m) \<and>
            (if handler_key h \<in> handler_key ` set (registered ?reg)
             then \<exists>i<length (array_of ?reg (method h)).
                    handler_key (array_of ?reg (method h) ! i) = handler_key h \<and>
                    array_of reg' (method h) = (array_of ?reg (method h))[i := h]
             else array_of reg' (method h) = array_of ?reg (method h) @ [h])"
  proof (intro allI impI)
    fix h reg' assume p: "ApiHandlers_put ?reg h = Inr reg'"
    from put_preserves_inv[OF inv p] have "at_most_one_per_key reg'"
      by (rule registry_inv_unique)
    with put_behaviour[OF inv p]
    show "at_most_one_per_key reg' \<and>
            (\<forall>m. m \<noteq> method h \<longrightarrow> array_of reg' m = array_of ?reg m) \<and>
            (if handler_key h \<in> handler_key ` set (registered ?reg)
             then \<exists>i<length (array_of ?reg (method h)).
                    handler_key (array_of ?reg (method h) ! i) = handler_key h \<and>
                    array_of reg' (method h) = (array_of ?reg (method h))[i := h]
             else array_of reg' (method h) = array_of ?reg (method h) @ [h])"
      by blast
  qed
  have 4: "\<forall>hs b' h. putHandlers ?b hs = (None, b') \<and> h \<in> set hs \<longrightarrow>
            ApiHandlers_match (current_registry b') (method h) (url h) =
              Inr (Some (last (filter (\<lambda>x. handler_key x = handler_key h) hs))) \<and>
            length (filter (\<lambda>x. handler_key x = handler_key h) (registered (current_registry b'))) = 1"
  proof (intro allI impI)
    fix hs b' h assume a: "putHandlers ?b hs = (None, b') \<and> h \<in> set hs"
    then have pa: "put_all ?reg hs = Inr (current_registry b')"
      by (simp add: putHandlers_put_all[OF sep])
    from put_all_preserves_inv[OF inv pa] have inv': "registry_inv (current_registry b')" .
    from a put_all_last[OF pa] have m: "ApiHandlers_match (current_registry b') (method h) (url h) =
              Inr (Some (last (filter (\<lambda>x. handler_key x = handler_key h) hs)))" by simp
    from m match_count_one[OF inv' m]
    show "ApiHandlers_match (current_registry b') (method h) (url h) =
              Inr (Some (last (filter (\<lambda>x. handler_key x = handler_key h) hs))) \<and>
            length (filter (\<lambda>x. handler_key x = handler_key h) (registered (current_registry b'))) = 1"
      by simp
  qed
  have 5: "\<forall>h\<in>set H.
            ApiHandlers_match (current_registry b0) (method h) (url h) =
              Inr (Some (last (filter (\<lambda>x. handler_key x = handler_key h) H))) \<and>
            length (filter (\<lambda>x. handler_key x = handler_key h) (registered (current_registry b0))) = 1"
  proof
    fix h assume h: "h \<in> set H"
    from initialize_facts(2)[OF assms]
    have pa: "put_all ApiHandlers_fields H = Inr (current_registry b0)"
      by (simp add: ApiHandlers_constructor_def)
    from put_all_last[OF pa h] have m: "ApiHandlers_match (current_registry b0) (method h) (url h) =
              Inr (Some (last (filter (\<lambda>x. handler_key x = handler_key h) H)))" .
    from m match_count_one[OF inv0 m]
    show "ApiHandlers_match (current_registry b0) (method h) (url h) =
              Inr (Some (last (filter (\<lambda>x. handler_key x = handler_key h) H))) \<and>
            length (filter (\<lambda>x. handler_key x = handler_key h) (registered (current_registry b0))) = 1"
      by simp
  qed
  from 1 2 3 4 5 show ?thesis by (intro conjI)
qed

theorem one_handler_per_key_witness:
  "initialize alice_bob [get_users] = Inr example_backend \<and>
   at_most_one_per_key (current_registry (run example_backend [PutHandlers [put_user, push_user]])) \<and>
   ApiHandlers_match (current_registry (run example_backend [PutHandlers [put_user, push_user]]))
     ''GET'' ''/users'' = Inr (Some push_user) \<and>
   length (filter (\<lambda>x. handler_key x = handler_key push_user)
     (registered (current_registry (run example_backend [PutHandlers [put_user, push_user]])))) = 1 \<and>
   (\<exists>reg'. ApiHandlers_put (current_registry example_backend) teapot = Inr reg' \<and>
      array_of reg' ''GET'' = array_of (current_registry example_backend) ''GET'' @ [teapot] \<and>
      array_of reg' ''POST'' = array_of (current_registry example_backend) ''POST'') \<and>
   (\<exists>reg'. ApiHandlers_put (current_registry example_backend) put_user = Inr reg' \<and>
      (\<exists>i<length (array_of (current_registry example_backend) ''GET'').
         array_of reg' ''GET'' = (array_of (current_registry example_backend) ''GET'')[i := put_user]))"
proof -
  note b = example_backend_initialized
  note sep = example_backend_facts(1) and rinv = example_backend_facts(2)
  let ?hs = "[put_user, push_user]"
  let ?b' = "run example_backend [PutHandlers ?hs]"
  note main = one_handler_per_key[OF b]
  have keys: "method push_user = ''GET''" "url push_user = ''/users''"
    "method put_user = ''GET''" "url put_user = ''/users''"
    "method teapot = ''GET''" "url teapot = ''/teapot''"
    by (simp_all add: example_defs)
  from main[where ops = "[PutHandlers ?hs]"] have A: "at_most_one_per_key (current_registry ?b')"
    by blast
  have valid: "\<forall>h\<in>set ?hs. method h \<in> set http_methods"
    by (simp add: keys http_methods_def)
  have e: "?b' = snd (putHandlers example_backend ?hs)"
    using run_snoc[of example_backend "[]" "PutHandlers ?hs"]
    by (simp only: run_Nil append_Nil exec.simps)
  from putHandlers_match[OF sep rinv valid] have "fst (putHandlers example_backend ?hs) = None"
    by blast
  then have p: "putHandlers (run example_backend []) ?hs = (None, ?b')"
    by (simp only: e run_Nil) (metis prod.collapse)
  have mem: "push_user \<in> set ?hs" by simp
  have l: "last (filter (\<lambda>x. handler_key x = handler_key push_user) ?hs) = push_user"
    by (simp add: key_pred keys)
  from main[where ops = "[]"] p mem
  have "ApiHandlers_match (current_registry ?b') (method push_user) (url push_user) =
          Inr (Some (last (filter (\<lambda>x. handler_key x = handler_key push_user) ?hs))) \<and>
        length (filter (\<lambda>x. handler_key x = handler_key push_user)
          (registered (current_registry ?b'))) = 1"
    by blast
  then have B: "ApiHandlers_match (current_registry ?b') ''GET'' ''/users'' = Inr (Some push_user)"
    and C: "length (filter (\<lambda>x. handler_key x = handler_key push_user)
          (registered (current_registry ?b'))) = 1"
    by (simp_all only: l keys)
  from main[where ops = "[]"] have put:
    "\<And>h reg'. ApiHandlers_put (current_registry example_backend) h = Inr reg' \<Longrightarrow>
        (\<forall>m. m \<noteq> method h \<longrightarrow> array_of reg' m = array_of (current_registry example_backend) m) \<and>
        (if handler_key h \<in> handler_key ` set (registered (current_registry example_backend))
         then \<exists>i<length (array_of (current_registry example_backend) (method h)).
                handler_key (array_of (current_registry example_backend) (method h) ! i) = handler_key h \<and>
                array_of reg' (method h) =
                  (array_of (current_registry example_backend) (method h))[i := h]
         else array_of reg' (method h) =
                array_of (current_registry example_backend) (method h) @ [h])"
    by (simp only: run_Nil) blast
  have "ApiHandlers_match (current_registry example_backend) ''GET'' ''/teapot'' = Inr None"
    by (simp add: initialized_match[OF b] example_defs Object_prototype_keys_def)
  with registered_key_iff[OF rinv, of "''GET''" "''/teapot''"]
  have new: "handler_key teapot \<notin> handler_key ` set (registered (current_registry example_backend))"
    by (simp add: handler_key_def keys)
  from registered_key_iff[OF rinv, of "''GET''" "''/users''"] example_backend_facts(4)
  have old: "handler_key put_user \<in> handler_key ` set (registered (current_registry example_backend))"
    by (simp add: handler_key_def keys)
  have g: "''GET'' \<in> set http_methods" by (simp add: http_methods_def)
  from put_succeeds[OF rinv, of teapot] g obtain r1
    where r1: "ApiHandlers_put (current_registry example_backend) teapot = Inr r1"
    by (auto simp: keys)
  from put_succeeds[OF rinv, of put_user] g obtain r2
    where r2: "ApiHandlers_put (current_registry example_backend) put_user = Inr r2"
    by (auto simp: keys)
  from put[OF r1] new
  have D: "array_of r1 ''GET'' = array_of (current_registry example_backend) ''GET'' @ [teapot] \<and>
           array_of r1 ''POST'' = array_of (current_registry example_backend) ''POST''"
    by (simp add: keys)
  from put[OF r2] old
  have E: "\<exists>i<length (array_of (current_registry example_backend) ''GET'').
         array_of r2 ''GET'' = (array_of (current_registry example_backend) ''GET'')[i := put_user]"
    by (simp only: keys if_True) blast
  from b A B C r1 D r2 E show ?thesis by blast
qed

subsection \<open>Resetting the handlers\<close>

text \<open>
  Claim C5. After \<open>initialize\<close> and any sequence of operations (calls of
  \<open>putHandlers\<close>, and also resets and requests), \<open>resetHandlers\<close> makes the
  current registry the registry that \<open>initialize\<close> built from its handler list, so
  \<open>match\<close> answers as it did right after \<open>initialize\<close> for every method and url;
  a second \<open>resetHandlers\<close> in a row leaves the same registry and the same
  states as the first.
\<close>

theorem resetHandlers_restores:
  assumes "initialize s H = Inr b0"
  shows "ApiHandlers_constructor H = Inr (current_registry (resetHandlers (run b0 ops))) \<and>
         (\<forall>m u. ApiHandlers_match (current_registry (resetHandlers (run b0 ops))) m u =
                ApiHandlers_match (current_registry b0) m u) \<and>
         current_registry (resetHandlers (resetHandlers (run b0 ops))) =
           current_registry (resetHandlers (run b0 ops)) \<and>
         current_state (resetHandlers (resetHandlers (run b0 ops))) =
           current_state (resetHandlers (run b0 ops))"
proof -
  let ?b = "run b0 ops"
  from reachable_inv[OF assms, of ops]
  have sep: "separated ?b" and ini: "initial_registry ?b = current_registry b0"
    by (simp_all add: backend_inv_def)
  have once: "current_registry (resetHandlers ?b) = current_registry b0"
    by (simp add: resetHandlers_facts(2)[OF sep] ini)
  have sep': "separated (resetHandlers ?b)" by (rule resetHandlers_facts(1)[OF sep])
  have twice: "current_registry (resetHandlers (resetHandlers ?b)) = current_registry b0"
    by (simp add: resetHandlers_facts(2)[OF sep'] resetHandlers_facts(3)[OF sep] ini)
  have st: "current_state (resetHandlers (resetHandlers ?b)) = current_state (resetHandlers ?b)"
    by (rule resetHandlers_facts(4)[OF sep'])
  from once twice st initialize_facts(2)[OF assms] show ?thesis by simp
qed

theorem resetHandlers_restores_witness:
  "initialize alice_bob [get_users] = Inr example_backend \<and>
   ApiHandlers_match (current_registry (run example_backend [PutHandlers [put_user]]))
     ''GET'' ''/users'' = Inr (Some put_user) \<and>
   ApiHandlers_match (current_registry (resetHandlers (run example_backend [PutHandlers [put_user]])))
     ''GET'' ''/users'' = Inr (Some get_users) \<and>
   current_registry (resetHandlers (resetHandlers (run example_backend [PutHandlers [put_user]]))) =
     current_registry (resetHandlers (run example_backend [PutHandlers [put_user]]))"
proof -
  note b = example_backend_initialized
  from resetHandlers_restores[OF b, of "[PutHandlers [put_user]]"]
  have 1: "ApiHandlers_match (current_registry (resetHandlers (run example_backend [PutHandlers [put_user]])))
             ''GET'' ''/users'' = ApiHandlers_match (current_registry example_backend) ''GET'' ''/users''"
    and 2: "current_registry (resetHandlers (resetHandlers (run example_backend [PutHandlers [put_user]]))) =
            current_registry (resetHandlers (run example_backend [PutHandlers [put_user]]))"
    by blast+
  from 1 2 b example_put_user example_backend_facts(4) show ?thesis by (simp only: simp_thms)
qed

subsection \<open>Resetting the state\<close>

text \<open>
  Claim C6. After \<open>initialize\<close> with the state \<open>s\<close> and any sequence of
  operations, whatever the handlers did to the state, \<open>resetState\<close> makes the
  current state equal to \<open>s\<close>, and a handler invoked next is run on \<open>s\<close>.
  \<open>resetState\<close> leaves the current and the initial registry as they are, and
  \<open>resetHandlers\<close> leaves the current and the initial state as they are.
\<close>

theorem resetState_restores:
  assumes "initialize s H = Inr b0"
  shows "current_state (resetState (run b0 ops)) = s \<and>
         fst (subscribe (Observable handler r) (resetState (run b0 ops))) =
           deliver (fst (handle handler r responseBuilder s)) \<and>
         current_registry (resetState (run b0 ops)) = current_registry (run b0 ops) \<and>
         initial_registry (resetState (run b0 ops)) = initial_registry (run b0 ops) \<and>
         current_state (resetHandlers (run b0 ops)) = current_state (run b0 ops) \<and>
         initial_state (resetHandlers (run b0 ops)) = initial_state (run b0 ops)"
proof -
  let ?b = "run b0 ops"
  from reachable_inv[OF assms, of ops]
  have sep: "separated ?b" and ini: "initial_state ?b = s"
    by (simp_all add: backend_inv_def)
  have cur: "current_state (resetState ?b) = s"
    by (simp add: resetState_facts(2)[OF sep] ini)
  have "fst (subscribe (Observable handler r) (resetState ?b)) =
               deliver (fst (handle handler r responseBuilder s))"
    by (simp only: fst_subscribe cur)
  with cur resetState_facts(4,5)[OF sep] resetHandlers_facts(4,5)[OF sep]
  show ?thesis by simp
qed

theorem resetState_restores_witness:
  "initialize alice_bob [get_users] = Inr example_backend \<and>
   current_state (run example_backend
      [PutHandlers [push_user], Request (example_request ''GET'' ''/users'')]) =
     alice_bob @ [(1000, ''override User'')] \<and>
   current_state (resetHandlers (run example_backend
      [PutHandlers [push_user], Request (example_request ''GET'' ''/users'')])) =
     alice_bob @ [(1000, ''override User'')] \<and>
   current_state (resetState (run example_backend
      [PutHandlers [push_user], Request (example_request ''GET'' ''/users'')])) = alice_bob \<and>
   fst (subscribe (Observable push_user (example_request ''GET'' ''/users''))
     (resetState (run example_backend
        [PutHandlers [push_user], Request (example_request ''GET'' ''/users'')]))) =
     ([Sent, Response (HttpResponse (alice_bob @ [(1000, ''override User'')]) 200)], Completed)"
proof -
  note b = example_backend_initialized
  let ?ops = "[PutHandlers [push_user], Request (example_request ''GET'' ''/users'')]"
  let ?rq = "example_request ''GET'' ''/users''"
  from resetState_restores[OF b, of ?ops push_user ?rq]
  have 1: "current_state (resetState (run example_backend ?ops)) = alice_bob"
    and 2: "current_state (resetHandlers (run example_backend ?ops)) =
            current_state (run example_backend ?ops)"
    and 3: "fst (subscribe (Observable push_user ?rq) (resetState (run example_backend ?ops))) =
            deliver (fst (handle push_user ?rq responseBuilder alice_bob))"
    by blast+
  have "deliver (fst (handle push_user ?rq responseBuilder alice_bob)) =
          ([Sent, Response (HttpResponse (alice_bob @ [(1000, ''override User'')]) 200)], Completed)"
    by (simp add: push_user_def handlerBuilder_get_def responseBuilder_def statusOk_def)
  with 3 have 4: "fst (subscribe (Observable push_user ?rq) (resetState (run example_backend ?ops))) =
          ([Sent, Response (HttpResponse (alice_bob @ [(1000, ''override User'')]) 200)], Completed)"
    by (simp only:)
  from 1 2 4 b example_push_run show ?thesis by (simp only: simp_thms)
qed

subsection \<open>The response builder\<close>

text \<open>
  Claim C7 as stated fails: the builder checks nothing, and \<open>ok\<close> with status
  404 is a Success outcome with status 404.
\<close>

theorem builder_does_not_check_counterexample:
  "\<not> outcome_invariant (ok responseBuilder \<lparr> body = ''not found'', status = 404 \<rparr>)"
  by (simp add: outcome_invariant_def responseBuilder_def)

text \<open>The error of a Failure outcome is the body passed, or \<^verbatim>\<open>null\<close> for the
  empty string.\<close>

lemma builder_error_empty_body:
  "error responseBuilder \<lparr> body = [], status = 404 \<rparr> = HttpErrorResponse NullError 404"
  by (simp add: responseBuilder_def)

text \<open>
  Claim C7, amended. For every body and status passed to the Outcome Builder,
  the outcome produced by \<open>ok\<close> is a Success outcome whose status is the status
  passed, so it has a status in [200,300) exactly when the status passed is in
  [200,300); the outcome produced by \<open>error\<close> is a Failure outcome whose status is
  the status passed, so it has a status outside [200,300) exactly when the status
  passed is outside. The Builder does not enforce the invariant: an outcome of
  \<open>ok\<close> with a status outside the range, or of \<open>error\<close> with a status inside,
  violates it, and is rejected when \<open>handle\<close> validates it.
\<close>

theorem builder_copies_status:
  "(\<exists>b'. ok responseBuilder \<lparr> body = b, status = s \<rparr> = HttpResponse b' s) \<and>
   (\<exists>e'. error responseBuilder \<lparr> body = e, status = s \<rparr> = HttpErrorResponse e' s) \<and>
   (outcome_invariant (ok responseBuilder \<lparr> body = b, status = s \<rparr>) \<longleftrightarrow> 200 \<le> s \<and> s < 300) \<and>
   (outcome_invariant (error responseBuilder \<lparr> body = e, status = s \<rparr>) \<longleftrightarrow> \<not> (200 \<le> s \<and> s < 300)) \<and>
   (\<not> (200 \<le> s \<and> s < 300) \<longrightarrow>
      deliver (ok responseBuilder \<lparr> body = b, status = s \<rparr>) =
        ([Sent], Threw InvalidResponseNotErrorButStatusNotOk)) \<and>
   (200 \<le> s \<and> s < 300 \<longrightarrow>
      deliver (error responseBuilder \<lparr> body = e, status = s \<rparr>) =
        ([Sent], Threw InvalidResponseErrorButStatusOk))"
proof -
  have o: "ok responseBuilder \<lparr> body = b, status = s \<rparr> = HttpResponse b s"
    by (simp add: responseBuilder_def)
  have e: "error responseBuilder \<lparr> body = e, status = s \<rparr> =
             HttpErrorResponse (if e = [] then NullError else StringError e) s"
    by (simp add: responseBuilder_def)
  have inv_ok: "outcome_invariant (HttpResponse b s) \<longleftrightarrow> 200 \<le> s \<and> s < 300"
    by (simp add: outcome_invariant_def)
  have inv_error: "outcome_invariant (HttpErrorResponse x s) \<longleftrightarrow> \<not> (200 \<le> s \<and> s < 300)" for x
    by (simp add: outcome_invariant_def)
  have thrown_ok: "\<not> (200 \<le> s \<and> s < 300) \<longrightarrow>
      deliver (HttpResponse b s) = ([Sent], Threw InvalidResponseNotErrorButStatusNotOk)"
    by (simp add: statusOk_def)
  have thrown_error: "200 \<le> s \<and> s < 300 \<longrightarrow>
      deliver (HttpErrorResponse x s) = ([Sent], Threw InvalidResponseErrorButStatusOk)" for x
    by (simp add: statusOk_def)
  show ?thesis
    unfolding o e using inv_ok inv_error thrown_ok thrown_error by blast
qed

theorem builder_copies_status_witness:
  "outcome_invariant (ok responseBuilder \<lparr> body = alice_bob, status = 200 \<rparr>) \<and>
   \<not> outcome_invariant
       ((error responseBuilder \<lparr> body = ''created'', status = 200 \<rparr>) :: users stub_response) \<and>
   deliver (error responseBuilder \<lparr> body = ''created'', status = 200 \<rparr>) =
     ([Sent], Threw InvalidResponseErrorButStatusOk :: users ending) \<and>
   \<not> outcome_invariant (ok responseBuilder \<lparr> body = alice_bob, status = 404 \<rparr>) \<and>
   deliver (ok responseBuilder \<lparr> body = alice_bob, status = 404 \<rparr>) =
     ([Sent], Threw InvalidResponseNotErrorButStatusNotOk)"
proof -
  have in_range: "(200::int) \<le> 200 \<and> (200::int) < 300"
    and out_of_range: "\<not> ((200::int) \<le> 404 \<and> (404::int) < 300)"
    by simp_all
  from builder_copies_status[of alice_bob 200 "''created''"]
    builder_copies_status[of alice_bob 404 "''created''"]
    in_range out_of_range
  show ?thesis by blast
qed

subsection \<open>What \<open>putHandlers\<close> leaves unchanged\<close>

text \<open>
  Claim C8. In every backend reached from \<open>initialize\<close>, a call of
  \<open>putHandlers\<close>, whether it returns or throws, leaves the initial registry, the
  initial state and the current state as they were; a \<open>resetHandlers\<close> after it
  makes the current registry the registry that \<open>initialize\<close> built.
\<close>

theorem putHandlers_current_registry_only:
  assumes "initialize s H = Inr b0"
  shows "initial_registry (snd (putHandlers (run b0 ops) hs)) = initial_registry (run b0 ops) \<and>
         initial_state (snd (putHandlers (run b0 ops) hs)) = initial_state (run b0 ops) \<and>
         current_state (snd (putHandlers (run b0 ops) hs)) = current_state (run b0 ops) \<and>
         current_registry (resetHandlers (snd (putHandlers (run b0 ops) hs))) = current_registry b0 \<and>
         ApiHandlers_constructor H = Inr (current_registry b0)"
proof -
  let ?b = "run b0 ops"
  from reachable_inv[OF assms, of ops]
  have sep: "separated ?b" and ini: "initial_registry ?b = current_registry b0"
    by (simp_all add: backend_inv_def)
  have sep': "separated (snd (putHandlers ?b hs))" by (rule putHandlers_separated[OF sep])
  from resetHandlers_facts(2)[OF sep'] putHandlers_initial_registry[OF sep, of hs] ini
  have "current_registry (resetHandlers (snd (putHandlers ?b hs))) = current_registry b0"
    by simp
  with putHandlers_initial_registry[OF sep, of hs] putHandlers_states[of ?b hs]
    initialize_facts(2)[OF assms]
  show ?thesis by simp
qed

theorem putHandlers_current_registry_only_witness:
  "initialize alice_bob [get_users] = Inr example_backend \<and>
   initial_registry (snd (putHandlers (run example_backend []) [put_user])) =
     initial_registry (run example_backend []) \<and>
   initial_state (snd (putHandlers (run example_backend []) [put_user])) =
     initial_state (run example_backend []) \<and>
   current_state (snd (putHandlers (run example_backend []) [put_user])) =
     current_state (run example_backend []) \<and>
   ApiHandlers_match (current_registry (snd (putHandlers (run example_backend []) [put_user])))
     ''GET'' ''/users'' = Inr (Some put_user) \<and>
   ApiHandlers_match
     (current_registry (resetHandlers (snd (putHandlers (run example_backend []) [put_user]))))
     ''GET'' ''/users'' = Inr (Some get_users)"
proof -
  note b = example_backend_initialized
  have e: "snd (putHandlers (run example_backend []) [put_user]) =
           run example_backend [PutHandlers [put_user]]"
    using run_snoc[of example_backend "[]" "PutHandlers [put_user]"]
    by (simp only: run_Nil append_Nil exec.simps)
  from putHandlers_current_registry_only[OF b, of "[]" "[put_user]"]
    example_backend_facts(4) example_put_user b
  show ?thesis by (simp only: e simp_thms)
qed

subsection \<open>Lookup with an unknown method\<close>

text \<open>
  Claim C9. In every backend reached from \<open>initialize\<close>, for every url and every
  method string outside the closed set of seven (upper-cased, as every method
  that \<open>handle\<close> passes to \<open>match\<close> is), \<open>match\<close> returns no handler and raises
  no error.
\<close>

theorem match_unknown_method_not_found:
  assumes "initialize s H = Inr b0"
      and "m \<notin> set http_methods"
      and "upper_cased m"
  shows "ApiHandlers_match (current_registry (run b0 ops)) m u = Inr None"
proof -
  from upper_cased_not_inherited[OF assms(3)]
  have "m \<notin> set Object_prototype_keys" .
  with assms(1,2) show ?thesis by (rule match_unknown_method)
qed

theorem match_unknown_method_not_found_witness:
  "ApiHandlers_match (current_registry (run example_backend [PutHandlers [put_user]]))
     ''TRACE'' ''/users'' = Inr None \<and>
   ApiHandlers_match (current_registry (run example_backend [PutHandlers [put_user]]))
     ''CONSTRUCTOR'' ''/users'' = Inr None \<and>
   ApiHandlers_match (current_registry (run example_backend [PutHandlers [put_user]]))
     [] ''/users'' = Inr None"
proof -
  note b = example_backend_initialized
  have n: "''TRACE'' \<notin> set http_methods" "''CONSTRUCTOR'' \<notin> set http_methods"
    "[] \<notin> set http_methods"
    by (simp_all add: http_methods_def)
  have u: "upper_cased ''TRACE''" "upper_cased ''CONSTRUCTOR''" "upper_cased []"
    by (simp_all add: upper_cased_def lower_case_letters_def)
  from match_unknown_method_not_found[OF b n(1) u(1)]
    match_unknown_method_not_found[OF b n(2) u(2)]
    match_unknown_method_not_found[OF b n(3) u(3)]
  show ?thesis by (simp only: simp_thms)
qed

subsection \<open>Soundness of lookup\<close>

text \<open>
  Claim C10. In every backend reached from \<open>initialize\<close> by \<open>putHandlers\<close>,
  resets and requests, a handler that \<open>match\<close> returns for a method and a url has
  that method and that url.
\<close>

theorem match_sound:
  assumes "initialize s H = Inr b0"
      and "ApiHandlers_match (current_registry (run b0 ops)) m u = Inr (Some h)"
  shows "method h = m \<and> url h = u"
proof -
  from reachable_inv[OF assms(1), of ops]
  have "registry_inv (current_registry (run b0 ops))" by (simp add: backend_inv_def)
  from match_registered[OF this assms(2)] show ?thesis by simp
qed

theorem match_sound_witness:
  "initialize alice_bob [get_users] = Inr example_backend \<and>
   ApiHandlers_match (current_registry (run example_backend [PutHandlers [put_user]]))
     ''GET'' ''/users'' = Inr (Some put_user) \<and>
   method put_user = ''GET'' \<and> url put_user = ''/users''"
proof -
  note b = example_backend_initialized
  have inv: "backend_inv (current_registry example_backend) alice_bob example_backend"
    by (rule initialize_inv(1)[OF b])
  then have sep: "separated example_backend"
    and rinv: "registry_inv (current_registry example_backend)"
    by (simp_all add: backend_inv_def)
  have valid: "\<forall>h\<in>set [put_user]. method h \<in> set http_methods"
    by (simp add: example_defs http_methods_def)
  have f: "find (\<lambda>h. method h = ''GET'' \<and> url h = ''/users'') (rev [put_user]) = Some put_user"
    by (simp add: example_defs)
  have m: "ApiHandlers_match (current_registry (run example_backend [PutHandlers [put_user]]))
          ''GET'' ''/users'' = Inr (Some put_user)"
    by (rule run_putHandlers_found[OF sep rinv valid f])
  from match_sound[OF b m] m b show ?thesis by simp
qed

end
